theory Spec2Isabelle
  imports Complex_Main "HOL-Library.Product_Lexorder"
begin

section \<open>The rankinator rating engine and matchmaker\<close>

text \<open>
  A shallow embedding of \<^verbatim>\<open>utils/math.ts\<close> (the Glicko-2 update),
  \<^verbatim>\<open>utils/rankingSystem.ts\<close> (\<^verbatim>\<open>processMatch\<close>) and
  \<^verbatim>\<open>utils/matchmaking.ts\<close> (\<^verbatim>\<open>getNextMatchup\<close>).

  A TypeScript \<^verbatim>\<open>number\<close> is modelled as a real number: arithmetic is exact, and the
  values NaN and Infinity, rounding, overflow and underflow of IEEE-754 doubles are not
  represented. The two \<^verbatim>\<open>while\<close> loops of \<^verbatim>\<open>calculateNewStats\<close> have no
  iteration bound in the source, so each is a partial function whose value \<open>None\<close>
  stands for a loop that never exits. The two calls of \<^verbatim>\<open>Math.random()\<close> in
  \<^verbatim>\<open>getNextMatchup\<close> are the parameters \<open>r1\<close> and \<open>r2\<close>.

  Three places where exact arithmetic and the doubles of the program part:
  \<^item> a volatility 0: \<^verbatim>\<open>Math.log(0)\<close> is \<^verbatim>\<open>-Infinity\<close>, while \<open>ln 0 = 0\<close> in HOL, so every
    result that a call returns assumes a volatility other than 0;
  \<^item> the exit of the second loop, which in the program can come from underflow and NaN
    (see the section on exact arithmetic and the exit of the loop);
  \<^item> strict inequalities between nearly equal values, which rounding can turn into
    equalities: the bound on the returned deviation is a non-strict inequality, on a
    range of deviations and volatilities where no intermediate value underflows or
    overflows.
\<close>

subsection \<open>Data model (types.ts, math.ts)\<close>

text \<open>
  \<^verbatim>\<open>GlickoPlayer\<close> has the fields rating, rd and vol; \<^verbatim>\<open>RankedItem\<close> has the same
  three fields and id, name, image and matches, so it is the extension of the former.
  The fields \<^verbatim>\<open>id\<close> and \<^verbatim>\<open>image\<close> are primed: both names are constants of HOL.
\<close>

record GlickoPlayer =
  rating :: real
  rd :: real
  vol :: real

record RankedItem = GlickoPlayer +
  id' :: string
  name :: string
  image' :: "string option"
  matches :: real

text \<open>The type \<^verbatim>\<open>0 | 0.5 | 1\<close> of the score argument.\<close>

datatype score = Loss | Draw | Win

fun score_val :: "score \<Rightarrow> real" where
  "score_val Loss = 0"
| "score_val Draw = 0.5"
| "score_val Win = 1"

subsection \<open>The Glicko-2 update (math.ts)\<close>

definition TAU :: real where
  "TAU = 0.5"

definition GLICKO_SCALE :: real where
  "GLICKO_SCALE = 173.7178"

definition g :: "real \<Rightarrow> real" where
  "g phi = 1 / sqrt (1 + (3 * phi ^ 2) / pi ^ 2)"

definition E :: "real \<Rightarrow> real \<Rightarrow> real \<Rightarrow> real" where
  "E mu mu_j phi_j = 1 / (1 + exp (- g phi_j * (mu - mu_j)))"

text \<open>The closure \<^verbatim>\<open>f\<close> of \<^verbatim>\<open>calculateNewStats\<close>, with the variables it captures
  (\<^verbatim>\<open>delta\<close>, \<^verbatim>\<open>p.phi\<close>, \<^verbatim>\<open>v\<close>, \<^verbatim>\<open>a\<close>) as parameters.\<close>

definition f :: "real \<Rightarrow> real \<Rightarrow> real \<Rightarrow> real \<Rightarrow> real \<Rightarrow> real" where
  "f delta p_phi v a x =
     (let eX = exp x;
          term1 = (eX * (delta ^ 2 - p_phi ^ 2 - v - eX)) / (2 * (p_phi ^ 2 + v + eX) ^ 2);
          term2 = (x - a) / TAU ^ 2
      in term1 - term2)"

text \<open>The object \<^verbatim>\<open>{mu, phi, sigma}\<close> returned by \<^verbatim>\<open>toGlickoScale\<close>.\<close>

record Glicko2 =
  mu :: real
  phi :: real
  sigma :: real

definition toGlickoScale :: "GlickoPlayer \<Rightarrow> Glicko2" where
  "toGlickoScale player =
     \<lparr> mu = (rating player - 1500) / GLICKO_SCALE,
       phi = rd player / GLICKO_SCALE,
       sigma = vol player \<rparr>"

definition toStandardScale :: "real \<Rightarrow> real \<Rightarrow> real \<Rightarrow> GlickoPlayer" where
  "toStandardScale m ph sg =
     \<lparr> rating = m * GLICKO_SCALE + 1500, rd = ph * GLICKO_SCALE, vol = sg \<rparr>"

text \<open>
  \<^verbatim>\<open>let k = 1; while (f(a - k * TAU) < 0) { k += 1; }\<close>: the loop returns the final
  \<open>k\<close>, or nothing when it never exits.
\<close>

partial_function (option) bracket_loop :: "(real \<Rightarrow> real) \<Rightarrow> real \<Rightarrow> real \<Rightarrow> real option" where
  "bracket_loop fx a k =
     (if fx (a - k * TAU) < 0 then bracket_loop fx a (k + 1) else Some k)"

text \<open>The initial value of \<^verbatim>\<open>B\<close> (lines \<^verbatim>\<open>let B = 0; if ... else ...\<close>).\<close>

definition initial_B :: "real \<Rightarrow> real \<Rightarrow> real \<Rightarrow> real \<Rightarrow> real option" where
  "initial_B delta p_phi v a =
     (if delta ^ 2 > p_phi ^ 2 + v then Some (ln (delta ^ 2 - p_phi ^ 2 - v))
      else (case bracket_loop (f delta p_phi v a) a 1 of
              None \<Rightarrow> None
            | Some k \<Rightarrow> Some (a - k * TAU)))"

text \<open>
  \<^verbatim>\<open>while (Math.abs(B - A) > 0.000001) { ... }\<close>: the state of the loop is
  \<open>A\<close>, \<open>B\<close>, \<open>fA\<close>, \<open>fB\<close>; only \<open>A\<close> is read after it.
\<close>

partial_function (option) illinois_loop ::
    "(real \<Rightarrow> real) \<Rightarrow> real \<Rightarrow> real \<Rightarrow> real \<Rightarrow> real \<Rightarrow> real option" where
  "illinois_loop fx A B fA fB =
     (if \<bar>B - A\<bar> > 0.000001 then
        (let C = A + ((A - B) * fA) / (fB - fA);
             fC = fx C
         in if fC * fB < 0 then illinois_loop fx B C fB fC
            else illinois_loop fx A C (fA / 2) fC)
      else Some A)"

text \<open>Step 5 and step 6 of \<^verbatim>\<open>calculateNewStats\<close>, from the final \<open>A\<close> of the loop.\<close>

definition new_stats :: "Glicko2 \<Rightarrow> real \<Rightarrow> real \<Rightarrow> real \<Rightarrow> real \<Rightarrow> real \<Rightarrow> GlickoPlayer" where
  "new_stats p v g_phi_j sc E_val A =
     (let newSigma = exp (A / 2);
          phiStar = sqrt (phi p ^ 2 + newSigma ^ 2);
          newPhi = 1 / sqrt (1 / phiStar ^ 2 + 1 / v);
          newMu = mu p + newPhi ^ 2 * g_phi_j * (sc - E_val)
      in toStandardScale newMu newPhi newSigma)"

text \<open>
  Steps 1 to 3 and the first line of step 4: the local variables \<^verbatim>\<open>p\<close>,
  \<^verbatim>\<open>g_phi_j\<close>, \<^verbatim>\<open>E_val\<close>, \<^verbatim>\<open>v\<close>, \<^verbatim>\<open>delta\<close> and \<^verbatim>\<open>a\<close>.
\<close>

definition calculateNewStats_locals ::
    "GlickoPlayer \<Rightarrow> GlickoPlayer \<Rightarrow> score \<Rightarrow> Glicko2 \<times> real \<times> real \<times> real \<times> real \<times> real" where
  "calculateNewStats_locals player opponent sc =
     (let p = toGlickoScale player;
          opp = toGlickoScale opponent;
          g_phi_j = g (phi opp);
          E_val = E (mu p) (mu opp) (phi opp);
          v = 1 / (g_phi_j ^ 2 * E_val * (1 - E_val));
          delta = v * g_phi_j * (score_val sc - E_val);
          a = ln (sigma p ^ 2)
      in (p, g_phi_j, E_val, v, delta, a))"

text \<open>Step 4: the value of \<^verbatim>\<open>A\<close> when both loops have ended.\<close>

definition final_A :: "real \<Rightarrow> real \<Rightarrow> real \<Rightarrow> real \<Rightarrow> real option" where
  "final_A delta p_phi v a =
     (case initial_B delta p_phi v a of
        None \<Rightarrow> None
      | Some B \<Rightarrow>
          illinois_loop (f delta p_phi v a) a B (f delta p_phi v a a) (f delta p_phi v a B))"

definition calculateNewStats :: "GlickoPlayer \<Rightarrow> GlickoPlayer \<Rightarrow> score \<Rightarrow> GlickoPlayer option" where
  "calculateNewStats player opponent sc =
     (case calculateNewStats_locals player opponent sc of
        (p, g_phi_j, E_val, v, delta, a) \<Rightarrow>
          (case final_A delta (phi p) v a of
             None \<Rightarrow> None
           | Some A \<Rightarrow> Some (new_stats p v g_phi_j (score_val sc) E_val A)))"

subsection \<open>processMatch (rankingSystem.ts)\<close>

definition toGlickoPlayer :: "RankedItem \<Rightarrow> GlickoPlayer" where
  "toGlickoPlayer item = \<lparr> rating = rating item, rd = rd item, vol = vol item \<rparr>"

definition processMatch :: "RankedItem \<Rightarrow> RankedItem \<Rightarrow> score \<Rightarrow> (RankedItem \<times> RankedItem) option" where
  "processMatch item1 item2 result =
     (let player1 = toGlickoPlayer item1;
          player2 = toGlickoPlayer item2
      in case calculateNewStats player1 player2 result of
           None \<Rightarrow> None
         | Some newStats1 \<Rightarrow>
             (let score2 = (if result = Draw then Draw else if result = Win then Loss else Win)
              in case calculateNewStats player2 player1 score2 of
                   None \<Rightarrow> None
                 | Some newStats2 \<Rightarrow>
                     Some (item1\<lparr> rating := rating newStats1, rd := rd newStats1,
                                   vol := vol newStats1, matches := matches item1 + 1 \<rparr>,
                           item2\<lparr> rating := rating newStats2, rd := rd newStats2,
                                   vol := vol newStats2, matches := matches item2 + 1 \<rparr>)))"

subsection \<open>getNextMatchup (matchmaking.ts)\<close>

text \<open>
  \<^verbatim>\<open>Array.prototype.sort\<close> with a comparator is a stable sort: an element goes before
  another when the comparator is negative, and elements that compare 0 keep their order.
  Insertion from the right into the sorted rest gives that order.
\<close>

fun insort_cmp :: "('a \<Rightarrow> 'a \<Rightarrow> real) \<Rightarrow> 'a \<Rightarrow> 'a list \<Rightarrow> 'a list" where
  "insort_cmp cmp x [] = [x]"
| "insort_cmp cmp x (y # ys) =
     (if cmp x y \<le> 0 then x # y # ys else y # insort_cmp cmp x ys)"

definition sort_cmp :: "('a \<Rightarrow> 'a \<Rightarrow> real) \<Rightarrow> 'a list \<Rightarrow> 'a list" where
  "sort_cmp cmp xs = foldr (insort_cmp cmp) xs []"

text \<open>The comparator of \<^verbatim>\<open>sortedByNeed\<close>.\<close>

definition need_cmp :: "RankedItem \<Rightarrow> RankedItem \<Rightarrow> real" where
  "need_cmp a b = (if matches a = matches b then rd b - rd a else matches a - matches b)"

text \<open>The comparator of the fallback sort, by distance to the rating of candidate A.\<close>

definition diff_cmp :: "RankedItem \<Rightarrow> RankedItem \<Rightarrow> RankedItem \<Rightarrow> real" where
  "diff_cmp candidateA a b = \<bar>rating a - rating candidateA\<bar> - \<bar>rating b - rating candidateA\<bar>"

text \<open>Reading \<^verbatim>\<open>xs[i]\<close>: \<^verbatim>\<open>undefined\<close> (here \<open>None\<close>) outside the array.\<close>

definition js_index :: "'a list \<Rightarrow> int \<Rightarrow> 'a option" where
  "js_index xs i = (if 0 \<le> i \<and> i < int (length xs) then Some (xs ! nat i) else None)"

text \<open>Reading a property of \<^verbatim>\<open>undefined\<close> throws.\<close>

datatype error = TypeError

text \<open>Lines 9 to 19: the sort by need and the draw of candidate A.\<close>

definition candidate_A :: "RankedItem list \<Rightarrow> real \<Rightarrow> RankedItem option" where
  "candidate_A items r1 =
     (let sortedByNeed = sort_cmp need_cmp items;
          candidateIndex = \<lfloor>r1 * real (min 3 (length sortedByNeed))\<rfloor>
      in js_index sortedByNeed candidateIndex)"

text \<open>Lines 21 to 36: the final value of \<^verbatim>\<open>closeOpponents\<close>.\<close>

definition opponent_candidates :: "RankedItem list \<Rightarrow> RankedItem \<Rightarrow> RankedItem list" where
  "opponent_candidates items candidateA =
     (let idealRatingDiff = 100;
          potentialOpponents = filter (\<lambda>item. id' item \<noteq> id' candidateA) items;
          closeOpponents =
            filter (\<lambda>item. \<bar>rating item - rating candidateA\<bar> \<le> idealRatingDiff)
              potentialOpponents
      in if length closeOpponents = 0
         then take 3 (sort_cmp (diff_cmp candidateA) potentialOpponents)
         else closeOpponents)"

text \<open>
  The result is \<open>Inr None\<close> for \<^verbatim>\<open>null\<close> and \<open>Inr (Some (candidateA, candidateB))\<close> for
  the pair, where \<open>candidateB\<close> is \<open>None\<close> when the source returns \<^verbatim>\<open>undefined\<close> in
  that place. \<open>r1\<close> and \<open>r2\<close> are the results of the first and the second call of
  \<^verbatim>\<open>Math.random()\<close>, which are in the interval from 0 (included) to 1 (excluded).
\<close>

definition getNextMatchup ::
    "RankedItem list \<Rightarrow> real \<Rightarrow> real \<Rightarrow> error + (RankedItem \<times> RankedItem option) option" where
  "getNextMatchup items r1 r2 =
     (if length items < 2 then Inr None
      else
        (case candidate_A items r1 of
           None \<Rightarrow> Inl TypeError
         | Some candidateA \<Rightarrow>
             (let closeOpponents = opponent_candidates items candidateA;
                  candidateB =
                    js_index closeOpponents \<lfloor>r2 * real (length closeOpponents)\<rfloor>
              in Inr (Some (candidateA, candidateB)))))"

subsection \<open>Auxiliary notions for the proofs\<close>

text \<open>
  When \<open>delta\<^sup>2 \<le> phi\<^sup>2 + v\<close>, the first term of \<open>f\<close> at \<open>x\<close> is
  \<open>- term1_size c D (exp x)\<close> with \<open>c = phi\<^sup>2 + v\<close> and \<open>D = c - delta\<^sup>2\<close>.
\<close>

definition term1_size :: "real \<Rightarrow> real \<Rightarrow> real \<Rightarrow> real" where
  "term1_size c D y = y * (D + y) / (2 * (c + y)\<^sup>2)"

text \<open>Example data: an item, and the state of a new player with a given deviation.\<close>

definition example_item :: "string \<Rightarrow> real \<Rightarrow> real \<Rightarrow> RankedItem" where
  "example_item i r m =
     \<lparr> rating = r, rd = 350, vol = 0.06, id' = i, name = i, image' = None, matches = m \<rparr>"

definition example_player :: "real \<Rightarrow> GlickoPlayer" where
  "example_player d = \<lparr> rating = 1500, rd = d, vol = 0.06 \<rparr>"

section \<open>Matchmaking: the sorts and the two draws\<close>

lemma insort_cmp_key:
  assumes "\<And>x y. (cmp x y \<le> 0) = (key x \<le> key y)"
  shows "insort_cmp cmp x xs = insort_key key x xs"
  by (induction xs) (simp_all add: assms)

lemma sort_cmp_key:
  assumes "\<And>x y. (cmp x y \<le> 0) = (key x \<le> key y)"
  shows "sort_cmp cmp xs = sort_key key xs"
proof -
  have "insort_cmp cmp = insort_key key"
    by (intro ext) (rule insort_cmp_key [OF assms])
  then show ?thesis
    by (simp add: sort_cmp_def sort_key_def)
qed

lemma need_cmp_key: "(need_cmp x y \<le> 0) = ((matches x, - rd x) \<le> (matches y, - rd y))"
  by (auto simp: need_cmp_def less_eq_prod_def)

lemma diff_cmp_key:
  "(diff_cmp c x y \<le> 0) = (\<bar>rating x - rating c\<bar> \<le> \<bar>rating y - rating c\<bar>)"
  by (simp add: diff_cmp_def)

lemma sorted_need: "sort_cmp need_cmp xs = sort_key (\<lambda>x. (matches x, - rd x)) xs"
  by (rule sort_cmp_key) (rule need_cmp_key)

lemma sorted_diff: "sort_cmp (diff_cmp c) xs = sort_key (\<lambda>x. \<bar>rating x - rating c\<bar>) xs"
  by (rule sort_cmp_key) (rule diff_cmp_key)

lemma sorted_filter_less_nth:
  fixes key :: "'a \<Rightarrow> 'k::linorder"
  assumes "sorted (map key xs)" and "i < length xs"
  shows "length (filter (\<lambda>y. key y < key (xs ! i)) xs) \<le> i"
proof -
  have "filter (\<lambda>y. key y < key (xs ! i)) (drop i xs) = []"
  proof -
    have "\<forall>y \<in> set (drop i xs). \<not> key y < key (xs ! i)"
    proof
      fix y assume "y \<in> set (drop i xs)"
      then obtain j where j: "j < length (drop i xs)" "y = drop i xs ! j"
        by (auto simp: in_set_conv_nth)
      then have "y = xs ! (i + j)" and "i + j < length xs" by auto
      with assms have "key (xs ! i) \<le> key y"
        using sorted_nth_mono [of "map key xs" i "i + j"] by simp
      then show "\<not> key y < key (xs ! i)" by simp
    qed
    then show ?thesis by (simp add: filter_empty_conv)
  qed
  then have "filter (\<lambda>y. key y < key (xs ! i)) xs = filter (\<lambda>y. key y < key (xs ! i)) (take i xs)"
    using filter_append [of _ "take i xs" "drop i xs"] by simp
  then have "length (filter (\<lambda>y. key y < key (xs ! i)) xs) \<le> length (take i xs)"
    by (metis length_filter_le)
  then show ?thesis by simp
qed

lemma sort_key_top:
  fixes key :: "'a \<Rightarrow> 'k::linorder"
  assumes "i < length xs"
  shows "length (filter (\<lambda>y. key y < key (sort_key key xs ! i)) xs) \<le> i"
proof -
  let ?s = "sort_key key xs"
  have "length (filter (\<lambda>y. key y < key (?s ! i)) ?s) \<le> i"
    by (rule sorted_filter_less_nth) (simp_all add: assms)
  moreover have "length (filter (\<lambda>y. key y < key (?s ! i)) ?s) = length (filter (\<lambda>y. key y < key (?s ! i)) xs)"
    by (simp add: filter_sort)
  ultimately show ?thesis by simp
qed

lemma floor_index_range:
  fixes r :: real
  assumes "0 \<le> r" "r < 1" "0 < n"
  shows "0 \<le> \<lfloor>r * real n\<rfloor>" and "\<lfloor>r * real n\<rfloor> < int n"
proof -
  show "0 \<le> \<lfloor>r * real n\<rfloor>" using assms by simp
  have "r * real n < real n" using assms by simp
  then show "\<lfloor>r * real n\<rfloor> < int n" by (simp add: floor_less_iff)
qed

lemma length_sort_cmp_need: "length (sort_cmp need_cmp xs) = length xs"
  by (simp add: sorted_need)

lemma set_sort_cmp_need: "set (sort_cmp need_cmp xs) = set xs"
  by (simp add: sorted_need)

lemma js_index_random:
  assumes "0 \<le> r" "r < 1" "xs \<noteq> []"
  shows "\<exists>i < length xs. js_index xs \<lfloor>r * real (length xs)\<rfloor> = Some (xs ! i)"
proof -
  have n: "0 < length xs" using assms by simp
  have lo: "0 \<le> \<lfloor>r * real (length xs)\<rfloor>" and hi: "\<lfloor>r * real (length xs)\<rfloor> < int (length xs)"
    using floor_index_range [OF assms(1,2) n] by simp_all
  then have "nat \<lfloor>r * real (length xs)\<rfloor> < length xs" by linarith
  moreover have "js_index xs \<lfloor>r * real (length xs)\<rfloor> = Some (xs ! nat \<lfloor>r * real (length xs)\<rfloor>)"
    using lo hi by (simp add: js_index_def)
  ultimately show ?thesis by blast
qed

lemma js_index_empty: "js_index [] i = None"
  by (simp add: js_index_def)

lemma candidate_A_top:
  assumes "0 \<le> r1" "r1 < 1" "items \<noteq> []"
  shows "\<exists>i < min 3 (length items). candidate_A items r1 = Some (sort_cmp need_cmp items ! i)"
proof -
  let ?s = "sort_cmp need_cmp items"
  let ?m = "min 3 (length ?s)"
  have m: "0 < ?m" "?m \<le> length ?s" using assms by (simp_all add: length_sort_cmp_need)
  have lo: "0 \<le> \<lfloor>r1 * real ?m\<rfloor>" and hi: "\<lfloor>r1 * real ?m\<rfloor> < int ?m"
    using floor_index_range [OF assms(1,2) m(1)] by simp_all
  have "nat \<lfloor>r1 * real ?m\<rfloor> < ?m" using lo hi by linarith
  moreover have "candidate_A items r1 = Some (?s ! nat \<lfloor>r1 * real ?m\<rfloor>)"
    using lo hi m(2) by (simp add: candidate_A_def js_index_def Let_def)
  ultimately show ?thesis by (auto simp: length_sort_cmp_need)
qed

lemma need_rank:
  assumes "i < length items"
  shows "length (filter (\<lambda>y. matches y < matches (sort_cmp need_cmp items ! i)
            \<or> (matches y = matches (sort_cmp need_cmp items ! i) \<and> rd (sort_cmp need_cmp items ! i) < rd y)) items) \<le> i"
proof -
  have "length (filter (\<lambda>y. (matches y, - rd y) < (\<lambda>x. (matches x, - rd x)) (sort_key (\<lambda>x. (matches x, - rd x)) items ! i)) items) \<le> i"
    using sort_key_top [OF assms, of "\<lambda>x. (matches x, - rd x)"] by simp
  moreover have "\<And>(a::real) (b::real) (c::real) (d::real). (a < b \<or> a \<le> b \<and> c < d) = (a < b \<or> a = b \<and> c < d)"
    by auto
  ultimately show ?thesis
    by (simp add: sorted_need less_prod_def)
qed

lemma opponent_candidates_nonempty:
  assumes "y \<in> set items" "id' y \<noteq> id' c"
  shows "opponent_candidates items c \<noteq> []"
proof -
  let ?po = "filter (\<lambda>item. id' item \<noteq> id' c) items"
  have "?po \<noteq> []" using assms by (auto simp: filter_empty_conv)
  then have "sort_key (\<lambda>x. \<bar>rating x - rating c\<bar>) ?po \<noteq> []"
    by (metis set_sort set_empty)
  then have "take 3 (sort_cmp (diff_cmp c) ?po) \<noteq> []"
    by (simp add: sorted_diff)
  then show ?thesis
    by (auto simp: opponent_candidates_def Let_def)
qed

lemma opponent_candidates_empty:
  assumes "\<forall>y \<in> set items. id' y = id' c"
  shows "opponent_candidates items c = []"
proof -
  have "filter (\<lambda>item. id' item \<noteq> id' c) items = []"
    using assms by (simp add: filter_empty_conv)
  then show ?thesis
    by (simp add: opponent_candidates_def Let_def sort_cmp_def)
qed

lemma opponent_candidates_member:
  assumes "b \<in> set (opponent_candidates items c)"
  shows "b \<in> set items \<and> id' b \<noteq> id' c \<and>
    (\<bar>rating b - rating c\<bar> \<le> 100 \<or>
     ((\<forall>y \<in> set items. id' y \<noteq> id' c \<longrightarrow> \<not> \<bar>rating y - rating c\<bar> \<le> 100) \<and>
      length (filter (\<lambda>y. id' y \<noteq> id' c \<and> \<bar>rating y - rating c\<bar> < \<bar>rating b - rating c\<bar>) items) < 3))"
proof -
  let ?po = "filter (\<lambda>item. id' item \<noteq> id' c) items"
  let ?co = "filter (\<lambda>item. \<bar>rating item - rating c\<bar> \<le> 100) ?po"
  show ?thesis
  proof (cases "?co = []")
    case False
    then have "opponent_candidates items c = ?co"
      by (simp add: opponent_candidates_def Let_def)
    with assms show ?thesis by auto
  next
    case True
    let ?key = "\<lambda>x. \<bar>rating x - rating c\<bar>"
    let ?s = "sort_key ?key ?po"
    from True have oc: "opponent_candidates items c = take 3 ?s"
      by (simp add: opponent_candidates_def Let_def sorted_diff)
    with assms obtain j where j: "j < length (take 3 ?s)" "b = take 3 ?s ! j"
      by (auto simp: in_set_conv_nth)
    then have j3: "j < 3" and jl: "j < length ?po" and b: "b = ?s ! j" by simp_all
    have "j < length ?s" using jl by simp
    then have "b \<in> set ?s" unfolding b by (rule nth_mem)
    then have mem: "b \<in> set items" "id' b \<noteq> id' c" by auto
    have "length (filter (\<lambda>y. ?key y < ?key (?s ! j)) ?po) \<le> j"
      by (rule sort_key_top [OF jl])
    then have cnt: "length (filter (\<lambda>y. id' y \<noteq> id' c \<and> ?key y < ?key b) items) < 3"
      using j3 b by (simp add: conj_commute)
    have none: "\<forall>y \<in> set items. id' y \<noteq> id' c \<longrightarrow> \<not> \<bar>rating y - rating c\<bar> \<le> 100"
      using True by (auto simp: filter_empty_conv)
    show ?thesis using mem cnt none by blast
  qed
qed

lemma distinct_ids_other:
  assumes "2 \<le> length items" "distinct (map id' items)"
  shows "\<exists>y \<in> set items. id' y \<noteq> id' c"
proof -
  from assms(1) obtain x y rest where items: "items = x # y # rest"
    by (cases items; cases "tl items") auto
  with assms(2) have "id' x \<noteq> id' y" by auto
  then have "id' x \<noteq> id' c \<or> id' y \<noteq> id' c" by auto
  then show ?thesis using items by auto
qed

lemma getNextMatchup_pair:
  assumes "2 \<le> length items" "0 \<le> r1" "r1 < 1"
  shows "\<exists>i < min 3 (length items).
     getNextMatchup items r1 r2 =
       Inr (Some (sort_cmp need_cmp items ! i,
                  js_index (opponent_candidates items (sort_cmp need_cmp items ! i))
                    \<lfloor>r2 * real (length (opponent_candidates items (sort_cmp need_cmp items ! i)))\<rfloor>))"
proof -
  have ne: "items \<noteq> []" using assms(1) by auto
  from candidate_A_top [OF assms(2,3) ne] obtain i where
    i: "i < min 3 (length items)" "candidate_A items r1 = Some (sort_cmp need_cmp items ! i)"
    by blast
  have "\<not> length items < 2" using assms(1) by simp
  then show ?thesis using i
    by (auto simp: getNextMatchup_def Let_def)
qed

section \<open>Rating update: the terms of the update and the two loops\<close>

lemma g_sq: "(g x)\<^sup>2 = 1 / (1 + 3 * x\<^sup>2 / pi\<^sup>2)"
proof -
  have "0 \<le> 1 + 3 * x\<^sup>2 / pi\<^sup>2" by (simp add: add_nonneg_nonneg)
  then show ?thesis by (simp add: g_def power_divide)
qed

lemma g_pos: "0 < g x"
proof -
  have "0 < 1 + 3 * x\<^sup>2 / pi\<^sup>2" by (simp add: add_pos_nonneg)
  then show ?thesis by (simp add: g_def)
qed

lemma g_sq_le_1: "(g x)\<^sup>2 \<le> 1"
proof -
  have "1 \<le> 1 + 3 * x\<^sup>2 / pi\<^sup>2" by simp
  moreover have "0 < 1 + 3 * x\<^sup>2 / pi\<^sup>2" by (simp add: add_pos_nonneg)
  ultimately show ?thesis by (simp only: g_sq divide_le_eq_1_pos)
qed

lemma g_abs: "g \<bar>x\<bar> = g x"
  by (simp add: g_def)

lemma E_equal: "E m m x = 1 / 2"
  by (simp add: E_def)

lemma E_range: "0 < E m n x" "E m n x < 1"
proof -
  have "0 < exp (- g x * (m - n))" by simp
  then show "0 < E m n x" "E m n x < 1"
    by (simp_all add: E_def add_pos_pos)
qed

lemma f_form:
  "f delta ph v a x =
     4 * (a - x) - exp x * ((ph\<^sup>2 + v - delta\<^sup>2) + exp x) / (2 * (ph\<^sup>2 + v + exp x)\<^sup>2)"
proof -
  have "exp x * (delta\<^sup>2 - ph\<^sup>2 - v - exp x) = - (exp x * ((ph\<^sup>2 + v - delta\<^sup>2) + exp x))"
    by (simp add: algebra_simps)
  then show ?thesis
    by (simp add: f_def Let_def TAU_def power2_eq_square)
qed

lemma term1_lt_half:
  fixes y c D :: real
  assumes "0 < y" "0 < c" "D \<le> c"
  shows "y * (D + y) / (2 * (c + y)\<^sup>2) < 1 / 2"
proof -
  have "y * D \<le> y * c" using assms by (simp add: mult_left_mono)
  moreover have "0 < c * c + c * y" using assms by (simp add: add_pos_pos)
  ultimately have "y * (D + y) < (c + y)\<^sup>2"
    by (simp add: power2_eq_square algebra_simps)
  moreover have "0 < (c + y)\<^sup>2" using assms by simp
  ultimately have "y * (D + y) / (c + y)\<^sup>2 < 1" by simp
  then show ?thesis by simp
qed

lemma f_below_a_pos:
  assumes "0 < v" "delta\<^sup>2 \<le> ph\<^sup>2 + v" "1 \<le> k"
  shows "0 < f delta ph v a (a - k * TAU)"
proof -
  let ?y = "exp (a - k * TAU)"
  have "0 < ph\<^sup>2 + v" using assms(1) by (simp add: add_nonneg_pos)
  moreover have "ph\<^sup>2 + v - delta\<^sup>2 \<le> ph\<^sup>2 + v" by simp
  ultimately have "?y * ((ph\<^sup>2 + v - delta\<^sup>2) + ?y) / (2 * (ph\<^sup>2 + v + ?y)\<^sup>2) < 1 / 2"
    by (intro term1_lt_half) simp_all
  moreover have "2 \<le> 4 * (a - (a - k * TAU))" using assms(3) by (simp add: TAU_def)
  ultimately show ?thesis by (simp only: f_form)
qed

lemma bracket_loop_first:
  assumes "0 < v" "delta\<^sup>2 \<le> ph\<^sup>2 + v"
  shows "bracket_loop (f delta ph v a) a 1 = Some 1"
proof -
  have "0 < f delta ph v a (a - 1 * TAU)"
    by (rule f_below_a_pos [OF assms]) simp
  then show ?thesis
    by (subst bracket_loop.simps) simp
qed

lemma initial_B_else:
  assumes "0 < v" "\<not> delta\<^sup>2 > ph\<^sup>2 + v"
  shows "initial_B delta ph v a = Some (a - TAU)"
proof -
  have "delta\<^sup>2 \<le> ph\<^sup>2 + v" using assms(2) by simp
  from bracket_loop_first [OF assms(1) this] assms(2) show ?thesis
    by (simp add: initial_B_def)
qed

lemma term1_size_pos:
  assumes "0 < y" "0 \<le> D" "0 < c"
  shows "0 < term1_size c D y"
  using assms by (simp add: term1_size_def add_nonneg_pos add_pos_pos)

lemma term1_size_le:
  assumes "0 < y" "0 \<le> D" "D \<le> c" "4 \<le> c"
  shows "term1_size c D y \<le> y / 8"
proof -
  have cy: "0 < c + y" using assms by simp
  have "4 * (c + y) \<le> (c + y) * (c + y)"
    using assms by (intro mult_right_mono) simp_all
  then have "4 * (D + y) \<le> (c + y)\<^sup>2"
    using assms(3) by (simp add: power2_eq_square)
  then have "y * (4 * (D + y)) \<le> y * (c + y)\<^sup>2"
    using assms(1) by (intro mult_left_mono) simp_all
  then have "y * (D + y) \<le> (y / 8) * (2 * (c + y)\<^sup>2)" by (simp add: algebra_simps)
  moreover have "0 < 2 * (c + y)\<^sup>2" using cy by simp
  ultimately show ?thesis
    unfolding term1_size_def by (simp only: pos_divide_le_eq)
qed

lemma term1_size_split:
  assumes "0 < c + y"
  shows "term1_size c D y = (y / (c + y)) * ((D + y) / (c + y)) / 2"
  using assms by (simp add: term1_size_def power2_eq_square)

lemma term1_size_mono:
  assumes "0 < y1" "y1 \<le> y2" "0 \<le> D" "D \<le> c" "0 < c"
  shows "term1_size c D y1 \<le> term1_size c D y2"
proof -
  have p1: "0 < c + y1" and p2: "0 < c + y2" using assms by simp_all
  have "y1 * c \<le> y2 * c" using assms by (intro mult_right_mono) simp_all
  then have "y1 * (c + y2) \<le> y2 * (c + y1)" by (simp add: algebra_simps)
  then have A: "y1 / (c + y1) \<le> y2 / (c + y2)"
    using p1 p2 by (simp add: pos_divide_le_eq pos_le_divide_eq mult.commute)
  have "(c - D) * y1 \<le> (c - D) * y2" using assms by (intro mult_left_mono) simp_all
  then have "(D + y1) * (c + y2) \<le> (D + y2) * (c + y1)" by (simp add: algebra_simps)
  then have B: "(D + y1) / (c + y1) \<le> (D + y2) / (c + y2)"
    using p1 p2 by (simp add: pos_divide_le_eq pos_le_divide_eq mult.commute)
  have "0 \<le> y1 / (c + y1)" "0 \<le> (D + y1) / (c + y1)" using assms p1 by simp_all
  then have "(y1 / (c + y1)) * ((D + y1) / (c + y1)) \<le> (y2 / (c + y2)) * ((D + y2) / (c + y2))"
    using A B by (intro mult_mono) (simp_all add: assms p2 order_trans [OF _ A])
  then show ?thesis
    by (simp only: term1_size_split [OF p1] term1_size_split [OF p2] divide_right_mono)
qed

lemma term1_size_scale_low:
  assumes "0 < u" "0 < q" "q \<le> 1" "0 \<le> D" "0 < c"
  shows "q\<^sup>2 * term1_size c D u \<le> term1_size c D (u * q)"
proof -
  have "q * D \<le> 1 * D" using assms by (intro mult_right_mono) simp_all
  then have "q * D + q * u \<le> D + u * q" by (simp add: mult.commute)
  then have "(u * q) * (q * D + q * u) \<le> (u * q) * (D + u * q)"
    using assms by (intro mult_left_mono) simp_all
  then have num: "q\<^sup>2 * (u * (D + u)) \<le> u * q * (D + u * q)"
    by (simp add: power2_eq_square algebra_simps)
  have "u * q \<le> u * 1" using assms by (intro mult_left_mono) simp_all
  then have "c + u * q \<le> c + u" by simp
  then have "(c + u * q)\<^sup>2 \<le> (c + u)\<^sup>2"
    using assms by (intro power_mono) simp_all
  then have den: "2 * (c + u * q)\<^sup>2 \<le> 2 * (c + u)\<^sup>2" by simp
  have "0 < c + u * q" using assms by (simp add: add_pos_pos)
  then have dpos: "0 < 2 * (c + u * q)\<^sup>2" by simp
  have npos: "0 \<le> u * q * (D + u * q)" using assms by simp
  have "q\<^sup>2 * (u * (D + u)) / (2 * (c + u)\<^sup>2) \<le> u * q * (D + u * q) / (2 * (c + u * q)\<^sup>2)"
    by (rule frac_le [OF npos num dpos den])
  then show ?thesis by (simp add: term1_size_def)
qed

lemma term1_size_scale_up:
  assumes "0 < u" "0 < q" "q \<le> 1" "0 \<le> D" "4 \<le> c"
  shows "term1_size c D (u * q) \<le> q * term1_size c D u * (1 + u * (1 - q) / 4)\<^sup>2"
proof -
  define t where "t = u * (1 - q) / 4"
  define w where "w = 1 + t"
  have uq: "0 < u * q" "u * q \<le> u" using assms by simp_all
  have t0: "0 \<le> t" using assms by (simp add: t_def)
  have w1: "1 \<le> w" using t0 by (simp add: w_def)
  have cq: "4 \<le> c + u * q" using assms uq by simp
  have "4 * t \<le> (c + u * q) * t"
    using cq t0 by (intro mult_right_mono) simp_all
  moreover have "4 * t = u - u * q" by (simp add: t_def right_diff_distrib)
  moreover have "(c + u * q) * w = (c + u * q) + (c + u * q) * t"
    by (simp add: w_def distrib_left)
  ultimately have "c + u \<le> (c + u * q) * w" by linarith
  moreover have "0 \<le> c + u" using assms by simp
  ultimately have "(c + u)\<^sup>2 \<le> ((c + u * q) * w)\<^sup>2"
    by (intro power_mono) simp_all
  then have den: "2 * (c + u)\<^sup>2 \<le> 2 * ((c + u * q) * w)\<^sup>2" by simp
  have dpos: "0 < 2 * (c + u)\<^sup>2" using assms by simp
  have "u * q * (D + u * q) \<le> u * q * (D + u)"
    using uq by (intro mult_left_mono) simp_all
  then have num: "u * q * (D + u * q) * w\<^sup>2 \<le> u * q * (D + u) * w\<^sup>2"
    by (intro mult_right_mono) simp_all
  have npos: "0 \<le> u * q * (D + u) * w\<^sup>2" using assms uq by simp
  have "u * q * (D + u * q) * w\<^sup>2 / (2 * ((c + u * q) * w)\<^sup>2)
        \<le> u * q * (D + u) * w\<^sup>2 / (2 * (c + u)\<^sup>2)"
    by (rule frac_le [OF npos num dpos den])
  moreover have "u * q * (D + u * q) * w\<^sup>2 / (2 * ((c + u * q) * w)\<^sup>2) = term1_size c D (u * q)"
    using w1 by (simp add: term1_size_def power_mult_distrib)
  moreover have "u * q * (D + u) * w\<^sup>2 / (2 * (c + u)\<^sup>2) = q * term1_size c D u * w\<^sup>2"
    by (simp add: term1_size_def)
  ultimately show ?thesis by (simp add: w_def t_def)
qed

lemma term1_size_half:
  assumes "0 < u" "8 * u \<le> D" "0 < c" "4 / 7 \<le> e1" "e1 \<le> 1"
  shows "32 * term1_size c D u \<le> 63 * term1_size c D (u * e1)"
proof -
  have e1: "0 < e1" using assms by simp
  have D: "0 \<le> D" using assms by simp
  have "u * (8 * u) \<le> u * D" using assms by (intro mult_left_mono) simp_all
  then have a: "32 * (u * (D + u)) \<le> 36 * (u * D)" by (simp add: algebra_simps)
  have "(4 / 7) * (u * D) \<le> e1 * (u * D)"
    using assms D by (intro mult_right_mono) simp_all
  then have b: "36 * (u * D) \<le> 63 * (u * e1 * D)" by (simp add: algebra_simps)
  have "0 \<le> u * e1 * (u * e1)" using assms e1 by simp
  then have "63 * (u * e1 * D) \<le> 63 * (u * e1 * (D + u * e1))" by (simp add: algebra_simps)
  with a b have num: "32 * (u * (D + u)) \<le> 63 * (u * e1 * (D + u * e1))" by linarith
  have "u * e1 \<le> u * 1" using assms by (intro mult_left_mono) simp_all
  then have "c + u * e1 \<le> c + u" by simp
  then have "(c + u * e1)\<^sup>2 \<le> (c + u)\<^sup>2"
    using assms e1 by (intro power_mono) simp_all
  then have den: "2 * (c + u * e1)\<^sup>2 \<le> 2 * (c + u)\<^sup>2" by simp
  have "0 < c + u * e1" using assms e1 by (simp add: add_pos_pos)
  then have dpos: "0 < 2 * (c + u * e1)\<^sup>2" by simp
  have npos: "0 \<le> 63 * (u * e1 * (D + u * e1))" using assms D e1 by simp
  have "32 * (u * (D + u)) / (2 * (c + u)\<^sup>2) \<le> 63 * (u * e1 * (D + u * e1)) / (2 * (c + u * e1)\<^sup>2)"
    by (rule frac_le [OF npos num dpos den])
  then show ?thesis by (simp add: term1_size_def)
qed

lemma exp_minus_half: "4 / 7 \<le> exp (- (1 / 2) :: real)" "exp (- (1 / 2) :: real) \<le> 1"
proof -
  have "exp (1 / 2 :: real) \<le> 1 + 1 / 2 + (1 / 2)\<^sup>2"
    by (rule exp_bound) simp_all
  then have "exp (1 / 2 :: real) \<le> 7 / 4" by (simp add: power2_eq_square)
  moreover have "exp (- (1 / 2) :: real) = 1 / exp (1 / 2)" by (simp add: exp_minus inverse_eq_divide)
  ultimately show "4 / 7 \<le> exp (- (1 / 2) :: real)"
    by (simp add: pos_le_divide_eq)
  show "exp (- (1 / 2) :: real) \<le> 1" by simp
qed

lemma exp_neg_bounds:
  fixes s :: real
  assumes "0 \<le> s"
  shows "1 - s \<le> exp (- s)" "exp (- s) \<le> 1" "exp (- s) * (1 + s) \<le> 1" "0 < exp (- s)"
proof -
  show "1 - s \<le> exp (- s)" using exp_ge_add_one_self [of "- s"] by simp
  show "exp (- s) \<le> 1" using assms by simp
  have "1 + s \<le> exp s" by (rule exp_ge_add_one_self)
  then have "exp (- s) * (1 + s) \<le> exp (- s) * exp s"
    by (intro mult_left_mono) simp_all
  then show "exp (- s) * (1 + s) \<le> 1" by (simp add: exp_minus)
  show "0 < exp (- s)" by simp
qed

lemma nonzero_divide_mult_cancel_right':
  fixes x y :: real
  shows "y \<noteq> 0 \<Longrightarrow> x / y * y = x"
  by simp

lemma illinois_two_steps:
  fixes u c D a :: real and fx :: "real \<Rightarrow> real"
  assumes u: "0 < u" "u \<le> 1 / 100" and c: "4 \<le> c" and D: "8 * u \<le> D" "D \<le> c"
    and a: "exp a = u"
    and fx: "\<And>x. fx x = 4 * (a - x) - term1_size c D (exp x)"
  shows "\<exists>A'. illinois_loop fx a (a - 1 / 2) (fx a) (fx (a - 1 / 2)) = Some A' \<and>
           a - u / 32 \<le> A' \<and> A' \<le> a"
proof -
  define H0 where "H0 = term1_size c D u"
  define H1 where "H1 = term1_size c D (u * exp (- (1 / 2)))"
  have D0: "0 \<le> D" and c0: "0 < c" using u D c by simp_all
  have H0pos: "0 < H0" unfolding H0_def by (rule term1_size_pos [OF u(1) D0 c0])
  have H0u: "H0 \<le> u / 8" unfolding H0_def by (rule term1_size_le [OF u(1) D0 D(2) c])
  have H0le: "H0 \<le> 1 / 800" using H0u u(2) by simp
  have ue: "0 < u * exp (- (1 / 2))" "u * exp (- (1 / 2)) \<le> u" using u(1) by simp_all
  have H1pos: "0 < H1" unfolding H1_def by (rule term1_size_pos [OF ue(1) D0 c0])
  have H1le: "H1 \<le> H0" unfolding H1_def H0_def
    by (rule term1_size_mono [OF ue(1) ue(2) D0 D(2) c0])
  have H1ge: "32 * H0 \<le> 63 * H1" unfolding H1_def H0_def
    by (rule term1_size_half [OF u(1) D(1) c0 exp_minus_half])
  have fA: "fx a = - H0" by (simp add: fx a H0_def)
  have "exp (a - 1 / 2) = u * exp (- (1 / 2))"
    using exp_add [of a "- (1 / 2)"] by (simp add: a)
  then have fB: "fx (a - 1 / 2) = 2 - H1" by (simp add: fx H1_def)
  define dl where "dl = H0 - H1"
  have dl0: "0 \<le> dl" and dl1: "63 * dl \<le> 31 * H0" using H1le H1ge by (simp_all add: dl_def)
  have dlle: "dl \<le> 1 / 800" using dl1 H0le H0pos by simp
  define s where "s = (H0 / 2) / (2 + dl)"
  have spos: "0 < s" using H0pos dl0 by (simp add: s_def)
  have "2 + dl \<noteq> 0" using dl0 by simp
  then have "s * (2 + dl) = H0 / 2"
    unfolding s_def by (rule nonzero_divide_mult_cancel_right')
  then have sid: "2 * s * (2 + dl) = H0" by simp
  have "s * 2 \<le> s * (2 + dl)" using spos dl0 by (intro mult_left_mono) simp_all
  then have s4: "4 * s \<le> H0" using sid by simp
  have sle: "s \<le> 1 / 3200" using s4 H0le by simp
  have C1: "a + ((a - (a - 1 / 2)) * fx a) / (fx (a - 1 / 2) - fx a) = a - s"
  proof -
    have "fx (a - 1 / 2) - fx a = 2 + dl" by (simp add: fA fB dl_def)
    moreover have "(a - (a - 1 / 2)) * fx a = - (H0 / 2)" by (simp add: fA)
    ultimately show ?thesis by (simp add: s_def)
  qed
  define q where "q = exp (- s)"
  have q: "1 - s \<le> q" "q \<le> 1" "q * (1 + s) \<le> 1" "0 < q"
    using exp_neg_bounds [of s] spos by (simp_all add: q_def)
  define T where "T = term1_size c D (u * q)"
  define F where "F = fx (a - s)"
  have "exp (a - s) = u * q" using exp_add [of a "- s"] by (simp add: a q_def)
  then have F: "F = 4 * s - T" by (simp add: F_def fx T_def)
  have Tlow: "(1 - 2 * s) * H0 \<le> T"
  proof -
    have "(1 - s)\<^sup>2 \<le> q\<^sup>2" using q(1) sle by (intro power_mono) simp_all
    moreover have "1 - 2 * s \<le> (1 - s)\<^sup>2" by (simp add: power2_eq_square algebra_simps)
    ultimately have "1 - 2 * s \<le> q\<^sup>2" by linarith
    then have "(1 - 2 * s) * H0 \<le> q\<^sup>2 * H0" using H0pos by (intro mult_right_mono) simp_all
    also have "\<dots> \<le> T" unfolding H0_def T_def
      by (rule term1_size_scale_low [OF u(1) q(4) q(2) D0 c0])
    finally show ?thesis .
  qed
  have Fup: "F \<le> 2 * s * H0" using Tlow s4 by (simp add: F algebra_simps)
  have Tup: "T * (1 + s) \<le> H0 * (1 + u * s)"
  proof -
    define w where "w = 1 + u * (1 - q) / 4"
    have T1: "T \<le> q * H0 * w\<^sup>2" unfolding T_def H0_def w_def
      by (rule term1_size_scale_up [OF u(1) q(4) q(2) D0 c])
    define y where "y = u * s / 4"
    have "u * s \<le> 1 * 1" using u spos sle by (intro mult_mono) simp_all
    then have y: "0 \<le> y" "y \<le> 1" using u(1) spos by (simp_all add: y_def)
    have "u * (1 - q) \<le> u * s" using q(1) u(1) by (intro mult_left_mono) simp_all
    then have "w \<le> 1 + y" by (simp add: w_def y_def)
    moreover have "0 \<le> w" using u(1) q(2) by (simp add: w_def)
    ultimately have "w\<^sup>2 \<le> (1 + y)\<^sup>2" by (intro power_mono) simp_all
    moreover have "y * y \<le> 1 * y" using y by (intro mult_right_mono) simp_all
    then have "(1 + y)\<^sup>2 \<le> 1 + 4 * y" using y(1) by (simp add: power2_eq_square algebra_simps)
    ultimately have w2: "w\<^sup>2 \<le> 1 + u * s" by (simp add: y_def)
    have "q * H0 * w\<^sup>2 \<le> q * H0 * (1 + u * s)"
      using w2 q(4) H0pos by (intro mult_left_mono) simp_all
    with T1 have "T \<le> q * H0 * (1 + u * s)" by linarith
    then have "T * (1 + s) \<le> q * H0 * (1 + u * s) * (1 + s)"
      using spos by (intro mult_right_mono) simp_all
    also have "\<dots> = (q * (1 + s)) * (H0 * (1 + u * s))" by (simp add: algebra_simps)
    also have "\<dots> \<le> 1 * (H0 * (1 + u * s))"
      using q(3) H0pos u(1) spos by (intro mult_right_mono) simp_all
    finally show ?thesis by simp
  qed
  have key: "dl + u * H0 / 2 < 2 * s"
  proof -
    have "u * H0 \<le> (1 / 100) * H0" using u(2) H0pos by (intro mult_right_mono) simp_all
    then have k: "dl + u * H0 / 2 \<le> (6263 / 12600) * H0" using dl1 by linarith
    have k0: "0 \<le> dl + u * H0 / 2" using dl0 u(1) H0pos by simp
    have "(dl + u * H0 / 2) * (2 + dl) \<le> ((6263 / 12600) * H0) * (2 + 1 / 800)"
      using k k0 dlle dl0 H0pos by (intro mult_mono) simp_all
    also have "\<dots> < H0" using H0pos by simp
    finally have "(dl + u * H0 / 2) * (2 + dl) < (2 * s) * (2 + dl)" using sid by simp
    moreover have "0 < 2 + dl" using dl0 by simp
    ultimately show ?thesis by (simp only: mult_less_cancel_right_pos)
  qed
  have Fpos: "0 < F"
  proof -
    have "H0 * (1 + u * s) = 2 * s * (2 + dl) + u * (s * (2 * s * (2 + dl)))"
      by (simp only: sid) (simp add: algebra_simps)
    also have "\<dots> = 2 * s * (2 + (dl + u * (2 * s * (2 + dl)) / 2))"
      by (simp add: algebra_simps)
    also have "\<dots> = 2 * s * (2 + (dl + u * H0 / 2))" by (simp only: sid)
    also have "\<dots> < 2 * s * (2 + 2 * s)"
      using key spos by (intro mult_strict_left_mono) simp_all
    finally have "H0 * (1 + u * s) < (4 * s) * (1 + s)" by (simp add: algebra_simps)
    with Tup have "T * (1 + s) < (4 * s) * (1 + s)" by linarith
    moreover have "0 < 1 + s" using spos by simp
    ultimately have "T < 4 * s" by (simp only: mult_less_cancel_right_pos)
    then show ?thesis by (simp add: F)
  qed
  have fBpos: "0 < fx (a - 1 / 2)" using H1le H0le by (simp add: fB)
  have step1: "illinois_loop fx a (a - 1 / 2) (fx a) (fx (a - 1 / 2))
      = illinois_loop fx a (a - s) (fx a / 2) F"
  proof -
    have "0 < F * fx (a - 1 / 2)" using Fpos fBpos by (rule mult_pos_pos)
    then have "\<not> fx (a - s) * fx (a - 1 / 2) < 0" by (simp add: F_def)
    moreover have "\<bar>a - 1 / 2 - a\<bar> > 0.000001" by simp
    ultimately show ?thesis
      by (subst illinois_loop.simps) (simp only: C1 Let_def if_True if_False F_def)
  qed
  show ?thesis
  proof (cases "\<bar>(a - s) - a\<bar> > 0.000001")
    case False
    then have "illinois_loop fx a (a - s) (fx a / 2) F = Some a"
      by (subst illinois_loop.simps) (simp only: if_False)
    with step1 u(1) show ?thesis by simp
  next
    case True
    define s2 where "s2 = (s * (H0 / 2)) / (F + H0 / 2)"
    have den: "0 < F + H0 / 2" using Fpos H0pos by simp
    have "F + H0 / 2 \<noteq> 0" using den by simp
    then have s2id: "s2 * (F + H0 / 2) = s * (H0 / 2)"
      unfolding s2_def by (rule nonzero_divide_mult_cancel_right')
    have s2pos: "0 < s2" using spos H0pos den by (simp add: s2_def)
    have difid: "(s - s2) * (F + H0 / 2) = s * F"
      using s2id by (simp add: algebra_simps)
    have "0 < s * F" using spos Fpos by simp
    then have "0 < (s - s2) * (F + H0 / 2)" by (simp only: difid)
    then have s2lt: "s2 < s" using den by (simp add: zero_less_mult_iff)
    have C2: "a + ((a - (a - s)) * (fx a / 2)) / (F - fx a / 2) = a - s2"
    proof -
      have "F - fx a / 2 = F + H0 / 2" by (simp add: fA)
      moreover have "(a - (a - s)) * (fx a / 2) = - (s * (H0 / 2))" by (simp add: fA)
      ultimately show ?thesis by (simp add: s2_def)
    qed
    define F2 where "F2 = fx (a - s2)"
    have "exp (a - s2) = u * exp (- s2)" using exp_add [of a "- s2"] by (simp add: a)
    then have F2: "F2 = 4 * s2 - term1_size c D (u * exp (- s2))" by (simp add: F2_def fx)
    have "u * q \<le> u * exp (- s2)"
      using s2lt u(1) by (simp add: q_def)
    moreover have "0 < u * q" using u(1) q(4) by simp
    ultimately have "T \<le> term1_size c D (u * exp (- s2))" unfolding T_def
      by (intro term1_size_mono) (simp_all add: D0 D(2) c0)
    then have F2le: "F2 \<le> F - 4 * (s - s2)" by (simp add: F2 F)
    have small: "H0 + dl / 2 < 1" using H0le dlle by simp
    have "(F + H0 / 2) * (2 + dl) \<le> (2 * s * H0 + H0 / 2) * (2 + dl)"
      using Fup dl0 by (intro mult_right_mono) simp_all
    also have "\<dots> = H0 * (2 * s * (2 + dl)) + H0 * (2 + dl) / 2" by (simp add: algebra_simps)
    also have "\<dots> = H0 * H0 + H0 + H0 * dl / 2" by (simp only: sid) (simp add: algebra_simps)
    also have "\<dots> = H0 * (H0 + dl / 2) + H0" by (simp add: algebra_simps)
    also have "\<dots> < H0 * 1 + H0"
      using small H0pos by (simp only: add_less_cancel_right mult_less_cancel_left_pos)
    also have "\<dots> = (4 * s) * (2 + dl)" using sid by simp
    finally have "(F + H0 / 2) * (2 + dl) < (4 * s) * (2 + dl)" .
    moreover have "0 < 2 + dl" using dl0 by simp
    ultimately have "F + H0 / 2 < 4 * s" by (simp only: mult_less_cancel_right_pos)
    then have "F * (F + H0 / 2) < F * (4 * s)"
      using Fpos by (simp only: mult_less_cancel_left_pos)
    also have "\<dots> = 4 * ((s - s2) * (F + H0 / 2))" by (simp only: difid) simp
    finally have "F * (F + H0 / 2) < (4 * (s - s2)) * (F + H0 / 2)" by (simp only: mult.assoc)
    then have "F < 4 * (s - s2)" using den by (simp only: mult_less_cancel_right_pos)
    with F2le have F2neg: "F2 < 0" by linarith
    have "(s - s2) * (F + H0 / 2) \<le> s * (2 * s * H0)"
      using Fup spos by (simp only: difid mult_le_cancel_left_pos)
    also have "\<dots> = (4 * s * s) * (H0 / 2)" by simp
    also have "\<dots> \<le> (4 * s * s) * (F + H0 / 2)"
      using Fpos spos by (intro mult_left_mono) simp_all
    finally have "s - s2 \<le> 4 * s * s" using den by (simp only: mult_le_cancel_right_pos)
    moreover have "s * s \<le> (1 / 3200) * (1 / 3200)"
      using sle spos by (intro mult_mono) simp_all
    ultimately have gap: "s - s2 \<le> 1 / 1000000" by simp
    have step2: "illinois_loop fx a (a - s) (fx a / 2) F = illinois_loop fx (a - s) (a - s2) F F2"
    proof -
      have "F2 * F < 0" using F2neg Fpos by (rule mult_neg_pos)
      then have "fx (a - s2) * F < 0" by (simp add: F2_def)
      then show ?thesis using True
        by (subst illinois_loop.simps) (simp only: C2 Let_def if_True F2_def)
    qed
    have "\<not> \<bar>(a - s2) - (a - s)\<bar> > 0.000001" using gap s2lt by simp
    then have "illinois_loop fx (a - s) (a - s2) F F2 = Some (a - s)"
      by (subst illinois_loop.simps) (simp only: if_False)
    with step1 step2 have "illinois_loop fx a (a - 1 / 2) (fx a) (fx (a - 1 / 2)) = Some (a - s)"
      by simp
    moreover have "a - u / 32 \<le> a - s" using s4 H0u by simp
    moreover have "a - s \<le> a" using spos by simp
    ultimately show ?thesis by blast
  qed
qed

section \<open>Rating update: the result of a call\<close>

lemma locals_props:
  assumes "calculateNewStats_locals player opponent sc = (p, gj, Ev, v, delta, a)"
  shows "p = toGlickoScale player" "gj = g (rd opponent / GLICKO_SCALE)"
    "Ev = E ((rating player - 1500) / GLICKO_SCALE) ((rating opponent - 1500) / GLICKO_SCALE)
            (rd opponent / GLICKO_SCALE)"
    "v = 1 / (gj\<^sup>2 * Ev * (1 - Ev))" "delta = v * gj * (score_val sc - Ev)"
    "a = ln ((vol player)\<^sup>2)"
  using assms by (auto simp: calculateNewStats_locals_def Let_def toGlickoScale_def)

lemma locals_pos:
  assumes "calculateNewStats_locals player opponent sc = (p, gj, Ev, v, delta, a)"
  shows "0 < gj" "0 < Ev" "Ev < 1" "0 < v"
proof -
  note l = locals_props [OF assms]
  show gj: "0 < gj" by (simp add: l(2) g_pos)
  show Ev: "0 < Ev" "Ev < 1" by (simp_all add: l(3) E_range)
  have "0 < gj\<^sup>2 * Ev * (1 - Ev)" using gj Ev by simp
  then show "0 < v" by (simp add: l(4))
qed


lemma locals_equal_rating:
  assumes "calculateNewStats_locals player opponent sc = (p, gj, Ev, v, delta, a)"
    and "rating player = rating opponent"
  shows "Ev = 1 / 2" "v * gj\<^sup>2 = 4" "4 \<le> v" "delta\<^sup>2 = 4 * (score_val sc - 1 / 2)\<^sup>2 * v"
proof -
  note l = locals_props [OF assms(1)]
  note pos = locals_pos [OF assms(1)]
  show Ev: "Ev = 1 / 2" using assms(2) by (simp add: l(3) E_equal)
  have g2: "0 < gj\<^sup>2" using pos(1) by simp
  have v: "v = 4 / gj\<^sup>2" by (simp add: l(4) Ev)
  show vg: "v * gj\<^sup>2 = 4" using g2 by (simp add: v)
  have "gj\<^sup>2 \<le> 1" by (simp add: l(2) g_sq_le_1)
  then have "v * gj\<^sup>2 \<le> v * 1" using pos(4) by (intro mult_left_mono) simp_all
  then show "4 \<le> v" using vg by simp
  have "delta\<^sup>2 = v * (v * gj\<^sup>2) * (score_val sc - 1 / 2)\<^sup>2"
    by (simp add: l(5) Ev power2_eq_square algebra_simps)
  then show "delta\<^sup>2 = 4 * (score_val sc - 1 / 2)\<^sup>2 * v" by (simp add: vg)
qed

lemma new_stats_fields:
  assumes "0 < v"
  shows "rating (new_stats p v gj sc Ev A) =
           (mu p + (1 / (1 / ((phi p)\<^sup>2 + exp A) + 1 / v)) * gj * (sc - Ev)) * GLICKO_SCALE + 1500"
    and "rd (new_stats p v gj sc Ev A) = (1 / sqrt (1 / ((phi p)\<^sup>2 + exp A) + 1 / v)) * GLICKO_SCALE"
    and "vol (new_stats p v gj sc Ev A) = exp (A / 2)"
proof -
  have e: "(exp (A / 2))\<^sup>2 = exp A"
    using exp_add [of "A / 2" "A / 2"] by (simp add: power2_eq_square)
  have X: "0 < (phi p)\<^sup>2 + exp A" by (simp add: add_nonneg_pos)
  then have star: "(sqrt ((phi p)\<^sup>2 + (exp (A / 2))\<^sup>2))\<^sup>2 = (phi p)\<^sup>2 + exp A"
    by (simp add: e)
  have "0 < 1 / ((phi p)\<^sup>2 + exp A) + 1 / v" using X assms by (simp add: add_pos_pos)
  then have sq: "(1 / sqrt (1 / ((phi p)\<^sup>2 + exp A) + 1 / v))\<^sup>2 = 1 / (1 / ((phi p)\<^sup>2 + exp A) + 1 / v)"
    by (simp add: power_divide)
  show "rating (new_stats p v gj sc Ev A) =
           (mu p + (1 / (1 / ((phi p)\<^sup>2 + exp A) + 1 / v)) * gj * (sc - Ev)) * GLICKO_SCALE + 1500"
    unfolding new_stats_def Let_def toStandardScale_def
    by (simp only: star sq GlickoPlayer.simps)
  show "rd (new_stats p v gj sc Ev A) = (1 / sqrt (1 / ((phi p)\<^sup>2 + exp A) + 1 / v)) * GLICKO_SCALE"
    unfolding new_stats_def Let_def toStandardScale_def
    by (simp only: star GlickoPlayer.simps)
  show "vol (new_stats p v gj sc Ev A) = exp (A / 2)"
    by (simp add: new_stats_def Let_def toStandardScale_def)
qed

lemma calculateNewStats_SomeD:
  assumes "calculateNewStats player opponent sc = Some r"
    and "calculateNewStats_locals player opponent sc = (p, gj, Ev, v, delta, a)"
  shows "\<exists>A. final_A delta (phi p) v a = Some A \<and> r = new_stats p v gj (score_val sc) Ev A"
  using assms by (auto simp: calculateNewStats_def split: option.splits)

lemma calculateNewStats_SomeI:
  assumes "calculateNewStats_locals player opponent sc = (p, gj, Ev, v, delta, a)"
    and "final_A delta (phi p) v a = Some A"
  shows "calculateNewStats player opponent sc = Some (new_stats p v gj (score_val sc) Ev A)"
  using assms by (simp add: calculateNewStats_def)

lemma final_A_two_steps:
  assumes u: "exp a = u" "0 < u" "u \<le> 1 / 100" and v: "4 \<le> v"
    and D: "8 * u \<le> ph\<^sup>2 + v - delta\<^sup>2"
  shows "\<exists>A. final_A delta ph v a = Some A \<and> a - u / 32 \<le> A \<and> A \<le> a"
proof -
  define c where "c = ph\<^sup>2 + v"
  define D where "D = c - delta\<^sup>2"
  have "0 \<le> ph\<^sup>2" by simp
  then have c4: "4 \<le> c" using v unfolding c_def by linarith
  have D8: "8 * u \<le> D" using D by (simp add: D_def c_def)
  have Dc: "D \<le> c" by (simp add: D_def)
  have nb: "\<not> delta\<^sup>2 > ph\<^sup>2 + v" using D u(2) by simp
  have v0: "0 < v" using v by simp
  have B: "initial_B delta ph v a = Some (a - 1 / 2)"
    using initial_B_else [OF v0 nb, of a] by (simp add: TAU_def)
  have fx: "\<And>x. f delta ph v a x = 4 * (a - x) - term1_size c D (exp x)"
    by (simp add: f_form term1_size_def c_def D_def)
  from illinois_two_steps [OF u(2,3) c4 D8 Dc u(1) fx] B show ?thesis
    by (simp add: final_A_def)
qed

lemma calculateNewStats_equal_rating:
  assumes eq: "rating player = rating opponent"
    and vol: "vol player \<noteq> 0" "(vol player)\<^sup>2 \<le> 1 / 100"
    and big: "sc = Draw \<or> 8 * (vol player)\<^sup>2 \<le> (rd player / GLICKO_SCALE)\<^sup>2"
  shows "\<exists>p gj v delta a A.
     calculateNewStats_locals player opponent sc = (p, gj, 1 / 2, v, delta, a) \<and> 4 \<le> v \<and>
     calculateNewStats player opponent sc = Some (new_stats p v gj (score_val sc) (1 / 2) A) \<and>
     exp a = (vol player)\<^sup>2 \<and> a - (vol player)\<^sup>2 / 32 \<le> A \<and> A \<le> a"
proof -
  obtain p gj Ev v delta a where
    loc: "calculateNewStats_locals player opponent sc = (p, gj, Ev, v, delta, a)"
    by (metis prod_cases6)
  note l = locals_props [OF loc]
  note e = locals_equal_rating [OF loc eq]
  define u where "u = (vol player)\<^sup>2"
  have u0: "0 < u" using vol(1) by (simp add: u_def)
  have ua: "exp a = u" using u0 by (simp add: l(6) u_def)
  have u1: "u \<le> 1 / 100" using vol(2) by (simp add: u_def)
  have ph: "phi p = rd player / GLICKO_SCALE" by (simp add: l(1) toGlickoScale_def)
  have D: "8 * u \<le> (phi p)\<^sup>2 + v - delta\<^sup>2"
  proof (cases sc)
    case Draw
    then have "delta\<^sup>2 = 0" using e(4) by simp
    moreover have "8 * u \<le> 4" using u1 by simp
    moreover have "0 \<le> (phi p)\<^sup>2" by simp
    ultimately show ?thesis using e(3) by linarith
  next
    case Win
    then have "delta\<^sup>2 = v" using e(4) by (simp add: power2_eq_square)
    then show ?thesis using big Win by (simp add: ph u_def)
  next
    case Loss
    then have "delta\<^sup>2 = v" using e(4) by (simp add: power2_eq_square)
    then show ?thesis using big Loss by (simp add: ph u_def)
  qed
  from final_A_two_steps [OF ua u0 u1 e(3) D] obtain A where
    A: "final_A delta (phi p) v a = Some A" "a - u / 32 \<le> A" "A \<le> a" by blast
  have "calculateNewStats player opponent sc = Some (new_stats p v gj (score_val sc) Ev A)"
    by (rule calculateNewStats_SomeI [OF loc A(1)])
  with loc e(1) e(3) ua A(2,3) show ?thesis
    unfolding u_def by blast
qed

lemma GLICKO_SCALE_pos: "0 < GLICKO_SCALE"
  by (simp add: GLICKO_SCALE_def)

lemma inv_sum_pos:
  fixes X v :: real
  assumes "0 < X" "0 < v"
  shows "0 < 1 / (1 / X + 1 / v)" "1 / (1 / X + 1 / v) < X"
proof -
  have q: "0 < 1 / X + 1 / v" using assms by (simp add: add_pos_pos)
  then show "0 < 1 / (1 / X + 1 / v)" by simp
  have "X * (1 / X + 1 / v) = 1 + X / v" using assms by (simp add: distrib_left)
  moreover have "0 < X / v" using assms by simp
  ultimately have "1 < X * (1 / X + 1 / v)" by simp
  then show "1 / (1 / X + 1 / v) < X" using q by (simp add: pos_divide_less_eq)
qed


lemma calculateNewStats_rating:
  assumes "calculateNewStats player opponent sc = Some r"
    and loc: "calculateNewStats_locals player opponent sc = (p, gj, Ev, v, delta, a)"
  shows "\<exists>N. 0 < N \<and> rating r = rating player + N * gj * (score_val sc - Ev) * GLICKO_SCALE"
proof -
  from calculateNewStats_SomeD [OF assms] obtain A where
    r: "r = new_stats p v gj (score_val sc) Ev A" by blast
  note pos = locals_pos [OF loc]
  define N where "N = 1 / (1 / ((phi p)\<^sup>2 + exp A) + 1 / v)"
  have "0 < (phi p)\<^sup>2 + exp A" by (simp add: add_nonneg_pos)
  then have N: "0 < N" unfolding N_def using pos(4) by (rule inv_sum_pos)
  have "mu p = (rating player - 1500) / GLICKO_SCALE"
    by (simp add: locals_props(1) [OF loc] toGlickoScale_def)
  then have "mu p * GLICKO_SCALE = rating player - 1500"
    using GLICKO_SCALE_pos by simp
  then have "(mu p + N * gj * (score_val sc - Ev)) * GLICKO_SCALE + 1500
      = rating player + N * gj * (score_val sc - Ev) * GLICKO_SCALE"
    by (simp add: distrib_right)
  then have "rating r = rating player + N * gj * (score_val sc - Ev) * GLICKO_SCALE"
    unfolding r N_def by (simp only: new_stats_fields(1) [OF pos(4)])
  with N show ?thesis by blast
qed

lemma f_minus_delta: "f (- delta) ph v a = f delta ph v a"
  by (rule ext) (simp add: f_def)

lemma final_A_minus_delta: "final_A (- delta) ph v a = final_A delta ph v a"
  unfolding final_A_def initial_B_def f_minus_delta power2_minus ..

lemma equal_states_win_loss:
  assumes w: "calculateNewStats player player Win = Some r1"
    and l: "calculateNewStats player player Loss = Some r2"
  shows "rating r1 - rating player = rating player - rating r2"
proof -
  obtain p gj Ev v delta a where
    locW: "calculateNewStats_locals player player Win = (p, gj, Ev, v, delta, a)"
    by (metis prod_cases6)
  note e = locals_equal_rating [OF locW refl]
  have dW: "delta = v * gj * (1 / 2)" using locals_props(5) [OF locW] e(1) by simp
  obtain p' gj' Ev' v' delta' a' where
    locL': "calculateNewStats_locals player player Loss = (p', gj', Ev', v', delta', a')"
    by (metis prod_cases6)
  note pW = locals_props [OF locW]
  note pL = locals_props [OF locL']
  have same: "p' = p" "gj' = gj" "Ev' = Ev" "a' = a"
    by (simp_all add: pW pL)
  then have "v' = v" by (simp add: pW(4) pL(4))
  moreover from this have "delta' = - delta" using same e(1) by (simp add: pL(5) dW)
  ultimately have locL: "calculateNewStats_locals player player Loss = (p, gj, Ev, v, - delta, a)"
    using locL' same by simp
  from calculateNewStats_SomeD [OF w locW] obtain A where
    A: "final_A delta (phi p) v a = Some A" "r1 = new_stats p v gj (score_val Win) Ev A" by blast
  from calculateNewStats_SomeD [OF l locL] obtain A' where
    A': "final_A (- delta) (phi p) v a = Some A'" "r2 = new_stats p v gj (score_val Loss) Ev A'" by blast
  have AA: "A' = A" using A(1) A'(1) by (simp add: final_A_minus_delta)
  note pos = locals_pos [OF locW]
  define N where "N = 1 / (1 / ((phi p)\<^sup>2 + exp A) + 1 / v)"
  have r1: "rating r1 = (mu p + N * gj * (1 - Ev)) * GLICKO_SCALE + 1500"
    unfolding A(2) N_def by (simp only: new_stats_fields(1) [OF pos(4)] score_val.simps)
  have r2: "rating r2 = (mu p + N * gj * (0 - Ev)) * GLICKO_SCALE + 1500"
    unfolding A'(2) AA N_def by (simp only: new_stats_fields(1) [OF pos(4)] score_val.simps)
  have "mu p = (rating player - 1500) / GLICKO_SCALE"
    by (simp add: locals_props(1) [OF locW] toGlickoScale_def)
  then have m: "mu p * GLICKO_SCALE = rating player - 1500"
    using GLICKO_SCALE_pos by simp
  show ?thesis using m by (simp add: r1 r2 e(1) algebra_simps)
qed

lemma example_player_returns:
  assumes "sc = Draw \<or> 8 * (6 / 100)\<^sup>2 \<le> (d / GLICKO_SCALE)\<^sup>2"
  shows "\<exists>r. calculateNewStats (example_player d) (example_player d) sc = Some r"
proof -
  have "rating (example_player d) = rating (example_player d)" ..
  moreover have "vol (example_player d) \<noteq> 0" "(vol (example_player d))\<^sup>2 \<le> 1 / 100"
    by (simp_all add: example_player_def power2_eq_square)
  moreover have "sc = Draw \<or> 8 * (vol (example_player d))\<^sup>2 \<le> (rd (example_player d) / GLICKO_SCALE)\<^sup>2"
    using assms by (simp add: example_player_def)
  ultimately show ?thesis
    using calculateNewStats_equal_rating [of "example_player d" "example_player d" sc] by blast
qed

lemma rating_moves_with_score:
  assumes "calculateNewStats player opponent sc = Some r"
    and "rating player = rating opponent"
  shows "sc = Win \<Longrightarrow> rating player < rating r"
    and "sc = Loss \<Longrightarrow> rating r < rating player"
    and "sc = Draw \<Longrightarrow> rating r = rating player"
proof -
  obtain p gj Ev v delta a where
    loc: "calculateNewStats_locals player opponent sc = (p, gj, Ev, v, delta, a)"
    by (metis prod_cases6)
  from calculateNewStats_rating [OF assms(1) loc] obtain N where
    N: "0 < N" "rating r = rating player + N * gj * (score_val sc - Ev) * GLICKO_SCALE" by blast
  have Ev: "Ev = 1 / 2" by (rule locals_equal_rating(1) [OF loc assms(2)])
  have "0 < N * gj * GLICKO_SCALE"
    using N(1) locals_pos(1) [OF loc] GLICKO_SCALE_pos by simp
  then have k: "0 < N * gj * (1 / 2) * GLICKO_SCALE" by simp
  show "sc = Win \<Longrightarrow> rating player < rating r" using k by (simp add: N(2) Ev)
  show "sc = Loss \<Longrightarrow> rating r < rating player" using k by (simp add: N(2) Ev)
  show "sc = Draw \<Longrightarrow> rating r = rating player" by (simp add: N(2) Ev)
qed

lemma calculateNewStats_deviation:
  assumes "calculateNewStats player opponent sc = Some r"
    and loc: "calculateNewStats_locals player opponent sc = (p, gj, Ev, v, delta, a)"
  shows "\<exists>A. final_A delta (phi p) v a = Some A \<and> (vol r)\<^sup>2 = exp A \<and> 0 < vol r \<and>
           rd r = GLICKO_SCALE / sqrt (1 / ((rd player / GLICKO_SCALE)\<^sup>2 + exp A) + 1 / v)"
proof -
  from calculateNewStats_SomeD [OF assms] obtain A where
    A: "final_A delta (phi p) v a = Some A" and r: "r = new_stats p v gj (score_val sc) Ev A" by blast
  note pos = locals_pos [OF loc]
  have ph: "phi p = rd player / GLICKO_SCALE"
    by (simp add: locals_props(1) [OF loc] toGlickoScale_def)
  have "(exp (A / 2))\<^sup>2 = exp A"
    using exp_add [of "A / 2" "A / 2"] by (simp add: power2_eq_square)
  then have "(vol r)\<^sup>2 = exp A" "0 < vol r"
    by (simp_all add: r new_stats_fields(3) [OF pos(4)])
  moreover have "rd r = GLICKO_SCALE / sqrt (1 / ((rd player / GLICKO_SCALE)\<^sup>2 + exp A) + 1 / v)"
    by (simp add: r new_stats_fields(2) [OF pos(4)] ph)
  ultimately show ?thesis using A by blast
qed

lemma f_abs_phi: "f delta \<bar>ph\<bar> v a = f delta ph v a"
  by (rule ext) (simp add: f_def)

lemma final_A_abs_phi: "final_A delta \<bar>ph\<bar> v a = final_A delta ph v a"
  unfolding final_A_def initial_B_def f_abs_phi power2_abs ..

lemma new_stats_abs_phi: "new_stats (p\<lparr>phi := \<bar>phi p\<bar>\<rparr>) v gj sc Ev A = new_stats p v gj sc Ev A"
  by (simp add: new_stats_def)

lemma locals_abs:
  "calculateNewStats_locals (p\<lparr>rd := \<bar>rd p\<bar>, vol := \<bar>vol p\<bar>\<rparr>) (opp\<lparr>rd := \<bar>rd opp\<bar>, vol := x\<rparr>) sc
   = (case calculateNewStats_locals p opp sc of
        (P, gj, Ev, v, delta, a) \<Rightarrow> (P\<lparr>phi := \<bar>phi P\<bar>, sigma := \<bar>sigma P\<bar>\<rparr>, gj, Ev, v, delta, a))"
proof -
  have S: "\<bar>GLICKO_SCALE\<bar> = GLICKO_SCALE" by (simp add: GLICKO_SCALE_def)
  have gA: "g (\<bar>rd opp\<bar> / GLICKO_SCALE) = g (rd opp / GLICKO_SCALE)"
    using g_abs [of "rd opp / GLICKO_SCALE"] by (simp add: S)
  have EA: "E m n (\<bar>rd opp\<bar> / GLICKO_SCALE) = E m n (rd opp / GLICKO_SCALE)" for m n
    by (simp add: E_def gA)
  show ?thesis
    by (simp add: calculateNewStats_locals_def Let_def toGlickoScale_def gA EA S)
qed

lemma final_A_neg_phi: "final_A delta (- ph) v a = final_A delta ph v a"
  using final_A_abs_phi [of delta "- ph" v a] final_A_abs_phi [of delta ph v a] by simp




section \<open>Rating update: exact arithmetic and the exit of the loop\<close>

text \<open>
  Over the real numbers the second loop does not exit for every valid input. When a secant
  point \<open>C\<close> is an exact zero of \<open>f\<close>, the test \<^verbatim>\<open>fC * fB < 0\<close> fails, the loop keeps
  \<open>A\<close> and halves \<open>fA\<close>, and the next secant point is \<open>C\<close> again, for ever. By the
  intermediate value theorem that happens for some volatility between \<open>sqrt 10\<close> and 10.

  This is a property of exact arithmetic, not of the program. In IEEE-754 doubles the
  halving of \<^verbatim>\<open>fA\<close> reaches 0 after about a thousand iterations, then
  \<^verbatim>\<open>C\<close> is \<^verbatim>\<open>0 / 0 = NaN\<close>, the comparison \<^verbatim>\<open>Math.abs(B - A) > 0.000001\<close> is false and
  the loop exits with the \<open>A\<close> it had. Whether the loop of the program exits, and after
  how many iterations, is therefore decided by rounding and underflow, which this theory
  does not represent. The results about a returned state are stated for calls whose loop
  is proved to exit after two iterations (\<open>solver_returns\<close>).
\<close>

lemma exp_neg_upper2:
  fixes x :: real
  assumes "0 \<le> x"
  shows "exp (- x) \<le> 1 - x + x\<^sup>2 / 2"
proof -
  from Maclaurin_exp_le [of "- x" 3] obtain t where
    "exp (- x) = (\<Sum>m<3. ((- x) ^ m) / fact m) + (exp t / fact 3) * (- x) ^ 3" by blast
  then have e: "exp (- x) = 1 - x + x\<^sup>2 / 2 - (exp t / 6) * x ^ 3"
    by (simp add: numeral_eq_Suc power2_eq_square fact_numeral)
  have "0 \<le> (exp t / 6) * x ^ 3" using assms by simp
  with e show ?thesis by linarith
qed

lemma exp_neg_lower3:
  fixes x :: real
  assumes "0 \<le> x"
  shows "1 - x + x\<^sup>2 / 2 - x ^ 3 / 6 \<le> exp (- x)"
proof -
  from Maclaurin_exp_le [of "- x" 4] obtain t where
    "exp (- x) = (\<Sum>m<4. ((- x) ^ m) / fact m) + (exp t / fact 4) * (- x) ^ 4" by blast
  then have e: "exp (- x) = 1 - x + x\<^sup>2 / 2 - x ^ 3 / 6 + (exp t / 24) * x ^ 4"
    by (simp add: numeral_eq_Suc power2_eq_square fact_numeral)
  have "0 \<le> (exp t / 24) * x ^ 4" using assms by simp
  with e show ?thesis by linarith
qed

lemma exp_neg_upper4:
  fixes x :: real
  assumes "0 \<le> x"
  shows "exp (- x) \<le> 1 - x + x\<^sup>2 / 2 - x ^ 3 / 6 + x ^ 4 / 24"
proof -
  from Maclaurin_exp_le [of "- x" 5] obtain t where
    "exp (- x) = (\<Sum>m<5. ((- x) ^ m) / fact m) + (exp t / fact 5) * (- x) ^ 5" by blast
  then have e: "exp (- x) = 1 - x + x\<^sup>2 / 2 - x ^ 3 / 6 + x ^ 4 / 24 - (exp t / 120) * x ^ 5"
    by (simp add: numeral_eq_Suc power2_eq_square fact_numeral)
  have "0 \<le> (exp t / 120) * x ^ 5" using assms by simp
  with e show ?thesis by linarith
qed

lemma illinois_loop_stuck:
  assumes "fx B = 0" "fA \<noteq> 0" "\<bar>B - A\<bar> > 0.000001"
  shows "illinois_loop fx A B fA 0 = None"
proof (rule ccontr)
  assume "illinois_loop fx A B fA 0 \<noteq> None"
  then obtain y where y: "illinois_loop fx A B fA 0 = Some y" by auto
  define P where "P = (\<lambda>(fx :: real \<Rightarrow> real) (A :: real) (B :: real) (fA :: real) (fB :: real) (y :: real).
      \<not> (fx B = 0 \<and> fB = 0 \<and> fA \<noteq> 0 \<and> \<bar>B - A\<bar> > 0.000001))"
  have "P fx A B fA 0 y"
  proof (rule illinois_loop.raw_induct [where P = P, OF _ y])
    fix loop :: "(real \<Rightarrow> real) \<Rightarrow> real \<Rightarrow> real \<Rightarrow> real \<Rightarrow> real \<Rightarrow> real option"
    fix fx :: "real \<Rightarrow> real" and A B fA fB y :: real
    assume IH: "\<And>fx A B fA fB y. loop fx A B fA fB = Some y \<Longrightarrow> P fx A B fA fB y"
      and body: "(if 1 / 10 ^ 6 < \<bar>B - A\<bar>
          then let C = A + (A - B) * fA / (fB - fA); fC = fx C
               in if fC * fB < 0 then loop fx B C fB fC else loop fx A C (fA / 2) fC
          else Some A) = Some y"
    show "P fx A B fA fB y"
      unfolding P_def
    proof
      assume st: "fx B = 0 \<and> fB = 0 \<and> fA \<noteq> 0 \<and> \<bar>B - A\<bar> > 0.000001"
      then have C: "A + (A - B) * fA / (fB - fA) = B" by (simp add: field_simps)
      from body st have "loop fx A B (fA / 2) 0 = Some y"
        by (simp add: C Let_def)
      from IH [OF this] st show False by (simp add: P_def)
    qed
  qed
  with assms show False by (simp add: P_def)
qed

lemma first_secant_step:
  fixes c D a h0 h1 s :: real and fx :: "real \<Rightarrow> real"
  assumes c: "0 < c" and D: "0 \<le> D" "D \<le> c"
    and fx: "\<And>x. fx x = 4 * (a - x) - term1_size c D (exp x)"
    and h0: "h0 = term1_size c D (exp a)"
    and h1: "h1 = term1_size c D (exp a * exp (- (1 / 2)))"
    and s: "s = (h0 / 2) / (2 + h0 - h1)"
  shows "fx a = - h0" "fx (a - 1 / 2) = 2 - h1" "0 < h1" "h1 \<le> h0" "h0 < 1 / 2" "0 < s"
    "a + ((a - (a - 1 / 2)) * fx a) / (fx (a - 1 / 2) - fx a) = a - s"
    "fx (a - s) = 4 * s - term1_size c D (exp a * exp (- s))"
proof -
  show fA: "fx a = - h0" by (simp add: fx h0)
  have "exp (a - 1 / 2) = exp a * exp (- (1 / 2))"
    using exp_add [of a "- (1 / 2)"] by simp
  then show fB: "fx (a - 1 / 2) = 2 - h1" by (simp add: fx h1)
  have ue: "0 < exp a * exp (- (1 / 2))" "exp a * exp (- (1 / 2)) \<le> exp a" by simp_all
  show h1pos: "0 < h1" unfolding h1 by (rule term1_size_pos [OF ue(1) D(1) c])
  show h10: "h1 \<le> h0" unfolding h1 h0
    by (rule term1_size_mono [OF ue(1) ue(2) D c])
  have "exp a * (D + exp a) / (2 * (c + exp a)\<^sup>2) < 1 / 2"
    by (rule term1_lt_half [OF _ c D(2)]) simp
  then show h0half: "h0 < 1 / 2" by (simp add: h0 term1_size_def)
  have h0pos: "0 < h0" using h1pos h10 by simp
  have den: "0 < 2 + h0 - h1" using h10 by simp
  show "0 < s" unfolding s using h0pos den by simp
  have "fx (a - 1 / 2) - fx a = 2 + h0 - h1" by (simp add: fA fB)
  moreover have "(a - (a - 1 / 2)) * fx a = - (h0 / 2)" by (simp add: fA)
  ultimately show "a + ((a - (a - 1 / 2)) * fx a) / (fx (a - 1 / 2) - fx a) = a - s"
    by (simp add: s)
  have "exp (a - s) = exp a * exp (- s)" using exp_add [of a "- s"] by simp
  then show "fx (a - s) = 4 * s - term1_size c D (exp a * exp (- s))" by (simp add: fx)
qed

lemma continuous_term1_size:
  fixes gx :: "real \<Rightarrow> real"
  assumes "continuous_on S gx" "\<And>x. x \<in> S \<Longrightarrow> 0 < gx x" "0 < c"
  shows "continuous_on S (\<lambda>x. term1_size c D (gx x))"
proof -
  have "2 * (c + gx x)\<^sup>2 \<noteq> 0" if "x \<in> S" for x
    using assms(2) [OF that] assms(3) by simp
  then show ?thesis
    unfolding term1_size_def using assms(1)
    by (intro continuous_intros) auto
qed

lemma final_A_never_returns:
  "\<exists>a. ln 10 \<le> a \<and> a \<le> ln 100 \<and> final_A 0 2 16 a = None"
proof -
  define e1 :: real where "e1 = exp (- (1 / 2))"
  define h where "h = term1_size 20 20"
  define sf where "sf = (\<lambda>a. (h (exp a) / 2) / (2 + h (exp a) - h (exp a * e1)))"
  define G where "G = (\<lambda>a. 4 * sf a - h (exp a * exp (- sf a)))"
  have fx: "f 0 2 16 a x = 4 * (a - x) - term1_size 20 20 (exp x)" for a x
    by (simp add: f_form term1_size_def)
  have c: "(0::real) < 20" "(0::real) \<le> 20" "(20::real) \<le> 20" by simp_all
  note fs = first_secant_step [OF c fx, unfolded h_def [symmetric] e1_def [symmetric], OF refl refl]
  have sdef: "sf a = (h (exp a) / 2) / (2 + h (exp a) - h (exp a * e1))" for a
    by (simp add: sf_def)
  have hmono: "h y1 \<le> h y2" if "0 < y1" "y1 \<le> y2" for y1 y2
    unfolding h_def using that by (intro term1_size_mono) simp_all
  have hval: "h y = y / (2 * (20 + y))" if "0 < y" for y
    using that by (simp add: h_def term1_size_def power2_eq_square)
  have ch0: "continuous_on UNIV (\<lambda>a. h (exp a))"
    unfolding h_def by (intro continuous_term1_size continuous_intros) simp_all
  have ch1: "continuous_on UNIV (\<lambda>a. h (exp a * e1))"
    unfolding h_def e1_def by (intro continuous_term1_size continuous_intros) simp_all
  have den: "2 + h (exp a) - h (exp a * e1) \<noteq> 0" for a
    using fs(4) [OF sdef, of a] by simp
  have cs: "continuous_on UNIV sf"
    unfolding sf_def using den by (intro continuous_intros ch0 ch1) simp_all
  have "continuous_on UNIV (\<lambda>a. h (exp a * exp (- sf a)))"
    unfolding h_def by (intro continuous_term1_size continuous_intros cs) simp_all
  then have cG: "continuous_on UNIV G"
    unfolding G_def by (intro continuous_intros cs)
  have e1lo: "29 / 48 \<le> e1"
    using exp_neg_lower3 [of "1 / 2"] by (simp add: e1_def power2_eq_square power3_eq_cube)
  have e1hi: "e1 \<le> 233 / 384"
    using exp_neg_upper4 [of "1 / 2"]
    by (simp add: e1_def power2_eq_square power3_eq_cube power4_eq_xxxx)
  have G1: "0 \<le> G (ln 10)"
  proof -
    have "h (10 * (29 / 48)) \<le> h (10 * e1)" using e1lo by (intro hmono) simp_all
    then have h1: "29 / 250 \<le> h (10 * e1)" by (simp add: hval)
    have h0: "h 10 = 1 / 6" by (simp add: hval)
    have s: "sf (ln 10) = (1 / 12) / (2 + 1 / 6 - h (10 * e1))" by (simp add: sdef h0)
    have dpos: "0 < 2 + 1 / 6 - h (10 * e1)" using fs(4) [OF sdef, of "ln 10"] by (simp add: h0)
    have "(203 / 5000) * (2 + 1 / 6 - h (10 * e1)) \<le> 1 / 12" using h1 by simp
    then have slo: "203 / 5000 \<le> sf (ln 10)"
      unfolding s using dpos by (simp only: pos_le_divide_eq)
    then have "exp (- sf (ln 10)) \<le> exp (- (203 / 5000))" by simp
    also have "\<dots> \<le> 1 - 203 / 5000 + (203 / 5000)\<^sup>2 / 2"
      by (rule exp_neg_upper2) simp
    also have "\<dots> \<le> 96023 / 100000" by (simp add: power2_eq_square)
    finally have "10 * exp (- sf (ln 10)) \<le> 10 * (96023 / 100000)" by simp
    then have "h (10 * exp (- sf (ln 10))) \<le> h (10 * (96023 / 100000))"
      by (intro hmono) simp_all
    also have "\<dots> \<le> 1622 / 10000" by (simp add: hval)
    finally have "h (10 * exp (- sf (ln 10))) \<le> 1622 / 10000" .
    then show ?thesis using slo by (simp add: G_def)
  qed
  have G2: "G (ln 100) \<le> 0"
  proof -
    have "0 < e1" by (simp add: e1_def)
    then have "h (100 * e1) \<le> h (100 * (233 / 384))" using e1hi by (intro hmono) simp_all
    then have h1: "h (100 * e1) \<le> 37605 / 100000" by (simp add: hval)
    have h0: "h 100 = 5 / 12" by (simp add: hval)
    have s: "sf (ln 100) = (5 / 24) / (2 + 5 / 12 - h (100 * e1))" by (simp add: sdef h0)
    have dpos: "0 < 2 + 5 / 12 - h (100 * e1)" using fs(4) [OF sdef, of "ln 100"] by (simp add: h0)
    have "5 / 24 \<le> (1021 / 10000) * (2 + 5 / 12 - h (100 * e1))" using h1 by simp
    then have shi: "sf (ln 100) \<le> 1021 / 10000"
      unfolding s using dpos by (simp only: pos_divide_le_eq)
    have "9029 / 10000 \<le> 1 - 1021 / 10000 + (1021 / 10000)\<^sup>2 / 2 - (1021 / 10000 :: real) ^ 3 / 6"
      by (simp add: power2_eq_square power3_eq_cube)
    also have "\<dots> \<le> exp (- (1021 / 10000))" by (rule exp_neg_lower3) simp
    also have "\<dots> \<le> exp (- sf (ln 100))" using shi by simp
    finally have "100 * (9029 / 10000) \<le> 100 * exp (- sf (ln 100))" by simp
    then have "h (100 * (9029 / 10000)) \<le> h (100 * exp (- sf (ln 100)))"
      by (intro hmono) simp_all
    moreover have "4093 / 10000 \<le> h (100 * (9029 / 10000))" by (simp add: hval)
    ultimately have "4093 / 10000 \<le> h (100 * exp (- sf (ln 100)))" by simp
    then show ?thesis using shi by (simp add: G_def)
  qed
  have "continuous_on {ln 10 .. ln 100} G" by (rule continuous_on_subset [OF cG]) simp
  moreover have "ln (10::real) \<le> ln 100" by simp
  ultimately obtain a where a: "ln 10 \<le> a" "a \<le> ln 100" "G a = 0"
    using IVT2' [of G "ln 100" 0 "ln 10"] G1 G2 by blast
  let ?fx = "f 0 2 16 a"
  note s = fs [OF sdef, of a]
  have zero: "?fx (a - sf a) = 0" using s(8) a(3) by (simp add: G_def)
  have "exp (ln 10) \<le> exp a" using a(1) by (simp only: exp_le_cancel_iff)
  then have "10 \<le> exp a" by simp
  then have "h 10 \<le> h (exp a)" by (intro hmono) simp_all
  then have h0: "1 / 6 \<le> h (exp a)" by (simp add: hval)
  have dpos: "0 < 2 + h (exp a) - h (exp a * e1)" using s(4) by simp
  have "(1 / 30) * (2 + h (exp a) - h (exp a * e1)) \<le> h (exp a) / 2"
    using h0 s(3) s(5) by simp
  then have slo: "1 / 30 \<le> sf a"
    unfolding sdef using dpos by (simp only: pos_le_divide_eq)
  have step: "illinois_loop ?fx a (a - 1 / 2) (?fx a) (?fx (a - 1 / 2))
      = illinois_loop ?fx a (a - sf a) (?fx a / 2) 0"
  proof -
    have "\<not> ?fx (a - sf a) * ?fx (a - 1 / 2) < 0" by (simp add: zero)
    moreover have "\<bar>a - 1 / 2 - a\<bar> > 0.000001" by simp
    ultimately have "illinois_loop ?fx a (a - 1 / 2) (?fx a) (?fx (a - 1 / 2))
        = illinois_loop ?fx a (a - sf a) (?fx a / 2) (?fx (a - sf a))"
      by (subst illinois_loop.simps) (simp only: s(7) Let_def if_True if_False)
    then show ?thesis by (simp only: zero)
  qed
  have "?fx a / 2 \<noteq> 0" using h0 by (simp add: s(1))
  moreover have "\<bar>(a - sf a) - a\<bar> > 0.000001" using slo by simp
  ultimately have "illinois_loop ?fx a (a - sf a) (?fx a / 2) 0 = None"
    by (intro illinois_loop_stuck zero)
  with step have loop: "illinois_loop ?fx a (a - 1 / 2) (?fx a) (?fx (a - 1 / 2)) = None"
    by simp
  have "initial_B 0 2 16 a = Some (a - TAU)" by (rule initial_B_else) simp_all
  then have "final_A 0 2 16 a = None" using loop by (simp add: final_A_def TAU_def)
  with a(1,2) show ?thesis by blast
qed

text \<open>
  A call with valid states that never returns over the reals: a player at deviation
  \<open>2 * GLICKO_SCALE\<close>, an opponent at the same rating and deviation \<open>GLICKO_SCALE * pi\<close>, a
  draw, and some volatility between \<open>sqrt 10\<close> and 10.
\<close>

lemma draw_call_never_returns:
  "\<exists>vl. 0 < vl \<and> 10 \<le> vl\<^sup>2 \<and> vl\<^sup>2 \<le> 100 \<and>
     calculateNewStats \<lparr>rating = 1500, rd = 2 * GLICKO_SCALE, vol = vl\<rparr>
       \<lparr>rating = 1500, rd = GLICKO_SCALE * pi, vol = 0.06\<rparr> Draw = None"
proof -
  from final_A_never_returns obtain a where
    a: "ln 10 \<le> a" "a \<le> ln 100" "final_A 0 2 16 a = None" by blast
  define vl where "vl = exp (a / 2)"
  have vl0: "0 < vl" by (simp add: vl_def)
  have vl2: "vl\<^sup>2 = exp a" using exp_add [of "a / 2" "a / 2"] by (simp add: vl_def power2_eq_square)
  have "exp (ln 10) \<le> exp a" "exp a \<le> exp (ln 100)" using a(1,2) by (simp_all only: exp_le_cancel_iff)
  then have rng: "10 \<le> vl\<^sup>2" "vl\<^sup>2 \<le> 100" by (simp_all add: vl2)
  let ?p = "\<lparr>rating = 1500, rd = 2 * GLICKO_SCALE, vol = vl\<rparr> :: GlickoPlayer"
  let ?o = "\<lparr>rating = 1500, rd = GLICKO_SCALE * pi, vol = 0.06\<rparr> :: GlickoPlayer"
  have S: "GLICKO_SCALE \<noteq> 0" by (simp add: GLICKO_SCALE_def)
  have gpi: "g pi = 1 / 2"
  proof -
    have "1 + 3 * pi\<^sup>2 / pi\<^sup>2 = (4::real)" by simp
    then have "sqrt (1 + 3 * pi\<^sup>2 / pi\<^sup>2) = sqrt (2\<^sup>2)" by simp
    then show ?thesis by (simp add: g_def)
  qed
  have lnv: "ln (vl\<^sup>2) = a" by (simp add: vl2)
  have sq: "((1::real) / 2)\<^sup>2 = 1 / 4" by (simp add: power2_eq_square)
  have loc: "calculateNewStats_locals ?p ?o Draw
      = (\<lparr>mu = 0, phi = 2, sigma = vl\<rparr>, 1 / 2, 1 / 2, 16, 0, a)"
    using S by (simp add: calculateNewStats_locals_def Let_def toGlickoScale_def gpi E_equal
        lnv sq)
  have "calculateNewStats ?p ?o Draw = None"
    unfolding calculateNewStats_def loc by (simp add: a(3))
  with vl0 rng show ?thesis by blast
qed

section \<open>Claims about the rating update\<close>

text \<open>
  Claim C1, as amended. \<^verbatim>\<open>calculateNewStats\<close> validates nothing and has no error
  result: the score is one of the three values of its type, and a call whose states have a
  negative deviation or volatility is processed exactly like the call with their absolute
  values, since the deviations and the volatility of the updated side enter the
  computation through their squares only; the volatility of the opponent is never read.
\<close>

theorem calculateNewStats_no_validation:
  "calculateNewStats p opp sc
     = calculateNewStats (p\<lparr>rd := \<bar>rd p\<bar>, vol := \<bar>vol p\<bar>\<rparr>) (opp\<lparr>rd := \<bar>rd opp\<bar>, vol := x\<rparr>) sc"
proof -
  obtain P gj Ev v delta a where
    loc: "calculateNewStats_locals p opp sc = (P, gj, Ev, v, delta, a)"
    by (metis prod_cases6)
  have "new_stats (P\<lparr>phi := \<bar>phi P\<bar>, sigma := \<bar>sigma P\<bar>\<rparr>) v gj (score_val sc) Ev
          = new_stats P v gj (score_val sc) Ev"
    by (rule ext) (simp add: new_stats_def)
  then show ?thesis
    by (simp add: calculateNewStats_def locals_abs loc final_A_abs_phi cong: option.case_cong)
qed

text \<open>
  The claim as stated fails: a state with the deviation -350 is not rejected. The call
  returns a result, the same one as for the deviation 350.
\<close>

theorem negative_deviation_counterexample:
  "\<exists>r. calculateNewStats \<lparr>rating = 1500, rd = - 350, vol = 0.06\<rparr> (example_player 350) Win = Some r \<and>
       calculateNewStats (example_player 350) (example_player 350) Win = Some r"
proof -
  let ?I = "\<lparr>rating = 1500, rd = - 350, vol = 0.06\<rparr> :: GlickoPlayer"
  let ?P = "example_player 350"
  have "rating ?I = rating ?P" "vol ?I \<noteq> 0" "(vol ?I)\<^sup>2 \<le> 1 / 100"
    "Win = Draw \<or> 8 * (vol ?I)\<^sup>2 \<le> (rd ?I / GLICKO_SCALE)\<^sup>2"
    by (simp_all add: example_player_def GLICKO_SCALE_def power2_eq_square)
  from calculateNewStats_equal_rating [OF this] obtain r where
    r: "calculateNewStats ?I ?P Win = Some r" by blast
  have eq: "calculateNewStats ?I ?P Win = calculateNewStats ?P ?P Win"
    by (simp add: calculateNewStats_def calculateNewStats_locals_def Let_def toGlickoScale_def
        example_player_def final_A_neg_phi new_stats_def cong: option.case_cong)
  have "calculateNewStats ?P ?P Win = Some r" using r by (simp only: eq)
  with r show ?thesis by blast
qed

text \<open>
  Claim C3, as amended. The loop of \<^verbatim>\<open>calculateNewStats\<close> starts from
  \<open>A = a = ln (sigma\<^sup>2)\<close>. When \<open>delta\<^sup>2 > phi\<^sup>2 + v\<close>, \<open>B = ln (delta\<^sup>2 - phi\<^sup>2 - v)\<close>.
  Otherwise \<open>k\<close> is incremented while \<open>f (a - k * TAU)\<close> is negative, so \<open>B = a - k * TAU\<close>
  for the smallest positive \<open>k\<close> at which \<open>f\<close> is not negative; that is always
  \<open>k = 1\<close>, the search ends at its first test.
\<close>

theorem initial_bracket:
  assumes loc: "calculateNewStats_locals player opponent sc = (p, gj, Ev, v, delta, a)"
  shows "a = ln ((vol player)\<^sup>2) \<and>
    final_A delta (phi p) v a =
      (case initial_B delta (phi p) v a of
         None \<Rightarrow> None
       | Some B \<Rightarrow> illinois_loop (f delta (phi p) v a) a B
                     (f delta (phi p) v a a) (f delta (phi p) v a B)) \<and>
    (delta\<^sup>2 > (phi p)\<^sup>2 + v \<longrightarrow>
       initial_B delta (phi p) v a = Some (ln (delta\<^sup>2 - (phi p)\<^sup>2 - v))) \<and>
    (\<not> delta\<^sup>2 > (phi p)\<^sup>2 + v \<longrightarrow>
       bracket_loop (f delta (phi p) v a) a 1 = Some 1 \<and>
       initial_B delta (phi p) v a = Some (a - 1 * TAU) \<and>
       \<not> f delta (phi p) v a (a - 1 * TAU) < 0)"
proof (intro conjI impI)
  show "a = ln ((vol player)\<^sup>2)" by (rule locals_props(6) [OF loc])
  show "final_A delta (phi p) v a =
      (case initial_B delta (phi p) v a of
         None \<Rightarrow> None
       | Some B \<Rightarrow> illinois_loop (f delta (phi p) v a) a B
                     (f delta (phi p) v a a) (f delta (phi p) v a B))"
    by (simp add: final_A_def)
  have v: "0 < v" by (rule locals_pos(4) [OF loc])
  {
    assume "delta\<^sup>2 > (phi p)\<^sup>2 + v"
    then show "initial_B delta (phi p) v a = Some (ln (delta\<^sup>2 - (phi p)\<^sup>2 - v))"
      by (simp add: initial_B_def)
  }
  {
    assume n: "\<not> delta\<^sup>2 > (phi p)\<^sup>2 + v"
    then have le: "delta\<^sup>2 \<le> (phi p)\<^sup>2 + v" by simp
    show "bracket_loop (f delta (phi p) v a) a 1 = Some 1"
      by (rule bracket_loop_first [OF v le])
    show "initial_B delta (phi p) v a = Some (a - 1 * TAU)"
      using initial_B_else [OF v n, of a] by simp
    have "0 < f delta (phi p) v a (a - 1 * TAU)"
      by (rule f_below_a_pos [OF v le]) simp
    then show "\<not> f delta (phi p) v a (a - 1 * TAU) < 0" by simp
  }
qed

text \<open>The theorem at two new players and a win (the second case).\<close>

theorem initial_bracket_witness:
  "\<exists>p gj Ev v delta a.
     calculateNewStats_locals (example_player 350) (example_player 350) Win = (p, gj, Ev, v, delta, a) \<and>
     a = ln ((vol (example_player 350))\<^sup>2) \<and> \<not> delta\<^sup>2 > (phi p)\<^sup>2 + v \<and>
     initial_B delta (phi p) v a = Some (a - 1 * TAU)"
proof -
  let ?P = "example_player 350"
  obtain p gj Ev v delta a where
    loc: "calculateNewStats_locals ?P ?P Win = (p, gj, Ev, v, delta, a)"
    by (metis prod_cases6)
  have "delta\<^sup>2 = v" using locals_equal_rating(4) [OF loc refl] by (simp add: power2_eq_square)
  then have n: "\<not> delta\<^sup>2 > (phi p)\<^sup>2 + v" by simp
  from initial_bracket [OF loc] n loc show ?thesis by blast
qed

text \<open>
  The claim as stated fails: for two new players and a draw, \<open>B = a - TAU\<close> and \<open>f\<close> is
  positive there, so \<open>B\<close> is no point \<open>a - k * TAU\<close> at which \<open>f\<close> is negative.
\<close>

theorem initial_bracket_counterexample:
  "\<exists>p gj Ev v delta a.
     calculateNewStats_locals (example_player 350) (example_player 350) Draw = (p, gj, Ev, v, delta, a) \<and>
     \<not> delta\<^sup>2 > (phi p)\<^sup>2 + v \<and>
     initial_B delta (phi p) v a = Some (a - TAU) \<and>
     0 < f delta (phi p) v a (a - TAU) \<and>
     \<not> (\<exists>k. a - TAU = a - k * TAU \<and> f delta (phi p) v a (a - k * TAU) < 0)"
proof -
  let ?P = "example_player 350"
  obtain p gj Ev v delta a where
    loc: "calculateNewStats_locals ?P ?P Draw = (p, gj, Ev, v, delta, a)"
    by (metis prod_cases6)
  have v: "0 < v" by (rule locals_pos(4) [OF loc])
  have "delta\<^sup>2 = 0" using locals_equal_rating(4) [OF loc refl] by simp
  then have le: "delta\<^sup>2 \<le> (phi p)\<^sup>2 + v" using v by (simp add: add_nonneg_nonneg)
  then have n: "\<not> delta\<^sup>2 > (phi p)\<^sup>2 + v" by simp
  have B: "initial_B delta (phi p) v a = Some (a - TAU)" by (rule initial_B_else [OF v n])
  have "0 < f delta (phi p) v a (a - 1 * TAU)" by (rule f_below_a_pos [OF v le]) simp
  then have pos: "0 < f delta (phi p) v a (a - TAU)" by simp
  have "\<not> (\<exists>k. a - TAU = a - k * TAU \<and> f delta (phi p) v a (a - k * TAU) < 0)"
  proof
    assume "\<exists>k. a - TAU = a - k * TAU \<and> f delta (phi p) v a (a - k * TAU) < 0"
    then obtain k where "a - TAU = a - k * TAU" "f delta (phi p) v a (a - k * TAU) < 0" by blast
    then have "f delta (phi p) v a (a - TAU) < 0" by (simp add: TAU_def)
    with pos show False by simp
  qed
  with loc n B pos show ?thesis by blast
qed




text \<open>
  Claim C9. \<^verbatim>\<open>processMatch\<close> returns exactly when both updates return, the second one
  with the complementary score \<open>1 - result\<close>. The two items returned keep the id, name
  and image of their inputs, have one match more each, and carry the states computed from
  the two states before the comparison: the update of item2 uses the state of item1
  before its update.
\<close>

theorem processMatch_frame:
  shows "((processMatch item1 item2 result = None) =
      (\<exists>sc2. score_val sc2 = 1 - score_val result \<and>
        (calculateNewStats (toGlickoPlayer item1) (toGlickoPlayer item2) result = None \<or>
         calculateNewStats (toGlickoPlayer item2) (toGlickoPlayer item1) sc2 = None))) \<and>
    (\<forall>new1 new2. processMatch item1 item2 result = Some (new1, new2) \<longrightarrow>
      id' new1 = id' item1 \<and> name new1 = name item1 \<and> image' new1 = image' item1 \<and>
      id' new2 = id' item2 \<and> name new2 = name item2 \<and> image' new2 = image' item2 \<and>
      matches new1 = matches item1 + 1 \<and> matches new2 = matches item2 + 1 \<and>
      (\<exists>sc2. score_val sc2 = 1 - score_val result \<and>
        calculateNewStats (toGlickoPlayer item1) (toGlickoPlayer item2) result
          = Some (toGlickoPlayer new1) \<and>
        calculateNewStats (toGlickoPlayer item2) (toGlickoPlayer item1) sc2
          = Some (toGlickoPlayer new2)))"
proof -
  define sc2 where "sc2 = (if result = Draw then Draw else if result = Win then Loss else Win)"
  have c: "score_val sc2 = 1 - score_val result"
    by (cases result) (simp_all add: sc2_def)
  have uniq: "s = sc2" if "score_val s = 1 - score_val result" for s
    using that c by (cases s; cases sc2) simp_all
  have pm: "processMatch item1 item2 result =
     (case calculateNewStats (toGlickoPlayer item1) (toGlickoPlayer item2) result of
        None \<Rightarrow> None
      | Some newStats1 \<Rightarrow>
          (case calculateNewStats (toGlickoPlayer item2) (toGlickoPlayer item1) sc2 of
             None \<Rightarrow> None
           | Some newStats2 \<Rightarrow>
               Some (item1\<lparr> rating := rating newStats1, rd := rd newStats1,
                             vol := vol newStats1, matches := matches item1 + 1 \<rparr>,
                     item2\<lparr> rating := rating newStats2, rd := rd newStats2,
                             vol := vol newStats2, matches := matches item2 + 1 \<rparr>)))"
    unfolding processMatch_def Let_def sc2_def by (rule refl)
  have none: "(processMatch item1 item2 result = None) =
      (calculateNewStats (toGlickoPlayer item1) (toGlickoPlayer item2) result = None \<or>
       calculateNewStats (toGlickoPlayer item2) (toGlickoPlayer item1) sc2 = None)"
    by (simp add: pm split: option.splits)
  have part1: "(processMatch item1 item2 result = None) =
      (\<exists>sc2. score_val sc2 = 1 - score_val result \<and>
        (calculateNewStats (toGlickoPlayer item1) (toGlickoPlayer item2) result = None \<or>
         calculateNewStats (toGlickoPlayer item2) (toGlickoPlayer item1) sc2 = None))"
  proof
    assume "processMatch item1 item2 result = None"
    then show "\<exists>sc2. score_val sc2 = 1 - score_val result \<and>
        (calculateNewStats (toGlickoPlayer item1) (toGlickoPlayer item2) result = None \<or>
         calculateNewStats (toGlickoPlayer item2) (toGlickoPlayer item1) sc2 = None)"
      using c none by blast
  next
    assume "\<exists>sc2. score_val sc2 = 1 - score_val result \<and>
        (calculateNewStats (toGlickoPlayer item1) (toGlickoPlayer item2) result = None \<or>
         calculateNewStats (toGlickoPlayer item2) (toGlickoPlayer item1) sc2 = None)"
    then obtain s where s: "score_val s = 1 - score_val result"
        "calculateNewStats (toGlickoPlayer item1) (toGlickoPlayer item2) result = None \<or>
         calculateNewStats (toGlickoPlayer item2) (toGlickoPlayer item1) s = None" by blast
    have "s = sc2" by (rule uniq [OF s(1)])
    with s(2) show "processMatch item1 item2 result = None" by (simp add: none)
  qed
  have part2: "id' new1 = id' item1 \<and> name new1 = name item1 \<and> image' new1 = image' item1 \<and>
      id' new2 = id' item2 \<and> name new2 = name item2 \<and> image' new2 = image' item2 \<and>
      matches new1 = matches item1 + 1 \<and> matches new2 = matches item2 + 1 \<and>
      (\<exists>sc2. score_val sc2 = 1 - score_val result \<and>
        calculateNewStats (toGlickoPlayer item1) (toGlickoPlayer item2) result
          = Some (toGlickoPlayer new1) \<and>
        calculateNewStats (toGlickoPlayer item2) (toGlickoPlayer item1) sc2
          = Some (toGlickoPlayer new2))"
    if "processMatch item1 item2 result = Some (new1, new2)" for new1 new2
  proof -
    from that obtain s1 s2 where
      s1: "calculateNewStats (toGlickoPlayer item1) (toGlickoPlayer item2) result = Some s1" and
      s2: "calculateNewStats (toGlickoPlayer item2) (toGlickoPlayer item1) sc2 = Some s2" and
      n1: "new1 = item1\<lparr> rating := rating s1, rd := rd s1, vol := vol s1, matches := matches item1 + 1 \<rparr>" and
      n2: "new2 = item2\<lparr> rating := rating s2, rd := rd s2, vol := vol s2, matches := matches item2 + 1 \<rparr>"
      by (auto simp: pm split: option.splits)
    have "toGlickoPlayer new1 = s1" "toGlickoPlayer new2 = s2"
      by (simp_all add: n1 n2 toGlickoPlayer_def)
    with s1 s2 c show ?thesis by (auto simp: n1 n2)
  qed
  show ?thesis
  proof (intro conjI allI impI)
    show "(processMatch item1 item2 result = None) =
      (\<exists>sc2. score_val sc2 = 1 - score_val result \<and>
        (calculateNewStats (toGlickoPlayer item1) (toGlickoPlayer item2) result = None \<or>
         calculateNewStats (toGlickoPlayer item2) (toGlickoPlayer item1) sc2 = None))"
      by (rule part1)
  qed (use part2 in simp_all)
qed

text \<open>The theorem at two new items and a win for the first.\<close>

theorem processMatch_frame_witness:
  "\<exists>new1 new2. processMatch (example_item ''a'' 1500 0) (example_item ''b'' 1500 3) Win = Some (new1, new2) \<and>
     id' new1 = ''a'' \<and> id' new2 = ''b'' \<and> matches new1 = 1 \<and> matches new2 = 4 \<and>
     calculateNewStats (toGlickoPlayer (example_item ''a'' 1500 0))
       (toGlickoPlayer (example_item ''b'' 1500 3)) Win = Some (toGlickoPlayer new1)"
proof -
  let ?a = "example_item ''a'' 1500 0" and ?b = "example_item ''b'' 1500 3"
  have P: "toGlickoPlayer ?a = example_player 350" "toGlickoPlayer ?b = example_player 350"
    by (simp_all add: toGlickoPlayer_def example_item_def example_player_def)
  have big: "8 * (6 / 100 :: real)\<^sup>2 \<le> (350 / GLICKO_SCALE)\<^sup>2"
    by (simp add: GLICKO_SCALE_def power2_eq_square)
  from example_player_returns [of Win 350] big obtain r1 where
    r1: "calculateNewStats (example_player 350) (example_player 350) Win = Some r1" by blast
  from example_player_returns [of Loss 350] big obtain r2 where
    r2: "calculateNewStats (example_player 350) (example_player 350) Loss = Some r2" by blast
  have "processMatch ?a ?b Win \<noteq> None"
    using r1 r2 by (simp add: processMatch_def Let_def P)
  then obtain new1 new2 where pm: "processMatch ?a ?b Win = Some (new1, new2)" by auto
  note fr = processMatch_frame [of ?a ?b Win, THEN conjunct2, rule_format, OF pm]
  from fr
  have "id' new1 = id' ?a \<and> id' new2 = id' ?b \<and>
      matches new1 = matches ?a + 1 \<and> matches new2 = matches ?b + 1 \<and>
      calculateNewStats (toGlickoPlayer ?a) (toGlickoPlayer ?b) Win = Some (toGlickoPlayer new1)"
    by blast
  then have "id' new1 = ''a'' \<and> id' new2 = ''b'' \<and> matches new1 = 1 \<and> matches new2 = 4 \<and>
      calculateNewStats (toGlickoPlayer ?a) (toGlickoPlayer ?b) Win = Some (toGlickoPlayer new1)"
    by (simp add: example_item_def)
  with pm show ?thesis by blast
qed


section \<open>Claims about the matchmaker\<close>

text \<open>
  Claim C4. \<^verbatim>\<open>getNextMatchup\<close> returns \<^verbatim>\<open>null\<close> exactly when the pool has fewer
  than two items, and that is a result, not an error. For a pool of at least two items
  with pairwise distinct identifiers and any two draws in the range of
  \<^verbatim>\<open>Math.random()\<close>, it returns a pair of items of the pool whose identifiers differ.
\<close>

theorem getNextMatchup_no_self_pair:
  assumes "0 \<le> r1" "r1 < 1" "0 \<le> r2" "r2 < 1"
  shows "((getNextMatchup items r1 r2 = Inr None) = (length items < 2)) \<and>
    (2 \<le> length items \<longrightarrow> distinct (map id' items) \<longrightarrow>
      (\<exists>A B. getNextMatchup items r1 r2 = Inr (Some (A, Some B)) \<and>
             A \<in> set items \<and> B \<in> set items \<and> id' A \<noteq> id' B))"
proof (intro conjI impI)
  show "(getNextMatchup items r1 r2 = Inr None) = (length items < 2)"
  proof (cases "length items < 2")
    case True
    then show ?thesis by (simp add: getNextMatchup_def)
  next
    case False
    then have "2 \<le> length items" by simp
    from getNextMatchup_pair [OF this assms(1,2), of r2] False show ?thesis by auto
  qed
next
  assume len: "2 \<le> length items" and dist: "distinct (map id' items)"
  from getNextMatchup_pair [OF len assms(1,2), of r2] obtain i where
    i: "i < min 3 (length items)" and
    res: "getNextMatchup items r1 r2 =
       Inr (Some (sort_cmp need_cmp items ! i,
                  js_index (opponent_candidates items (sort_cmp need_cmp items ! i))
                    \<lfloor>r2 * real (length (opponent_candidates items (sort_cmp need_cmp items ! i)))\<rfloor>))"
    by blast
  let ?A = "sort_cmp need_cmp items ! i"
  let ?oc = "opponent_candidates items ?A"
  have "i < length (sort_cmp need_cmp items)" using i by (simp add: length_sort_cmp_need)
  then have "?A \<in> set (sort_cmp need_cmp items)" by (rule nth_mem)
  then have A: "?A \<in> set items" by (simp add: set_sort_cmp_need)
  from distinct_ids_other [OF len dist, of ?A] obtain y where "y \<in> set items" "id' y \<noteq> id' ?A"
    by blast
  then have ne: "?oc \<noteq> []" by (rule opponent_candidates_nonempty)
  from js_index_random [OF assms(3,4) ne] obtain j where
    j: "j < length ?oc" "js_index ?oc \<lfloor>r2 * real (length ?oc)\<rfloor> = Some (?oc ! j)"
    by blast
  have "?oc ! j \<in> set ?oc" using j(1) by (rule nth_mem)
  from opponent_candidates_member [OF this] have "?oc ! j \<in> set items" "id' (?oc ! j) \<noteq> id' ?A"
    by simp_all
  with A res j(2) show "\<exists>A B. getNextMatchup items r1 r2 = Inr (Some (A, Some B)) \<and>
             A \<in> set items \<and> B \<in> set items \<and> id' A \<noteq> id' B"
    by (metis (no_types, lifting))
qed

text \<open>The theorem at a pool of two items, with the draws 0 and 1/2.\<close>

theorem getNextMatchup_no_self_pair_witness:
  "(0::real) \<le> 0 \<and> (0::real) < 1 \<and> (0::real) \<le> 1/2 \<and> (1/2::real) < 1 \<and>
   2 \<le> length [example_item ''a'' 1500 0, example_item ''b'' 1520 3] \<and>
   distinct (map id' [example_item ''a'' 1500 0, example_item ''b'' 1520 3]) \<and>
   getNextMatchup [example_item ''a'' 1500 0, example_item ''b'' 1520 3] 0 (1/2) \<noteq> Inr None \<and>
   (\<exists>A B. getNextMatchup [example_item ''a'' 1500 0, example_item ''b'' 1520 3] 0 (1/2)
             = Inr (Some (A, Some B)) \<and> id' A \<noteq> id' B)"
  using getNextMatchup_no_self_pair [of 0 "1/2" "[example_item ''a'' 1500 0, example_item ''b'' 1520 3]"]
  by (simp add: example_item_def) blast

text \<open>
  Claim C7, as amended. For a pool of at least two items with pairwise distinct
  identifiers and any two draws, the pair is constrained as follows. Candidate A is one
  of the first \<open>min 3 n\<close> items of the pool sorted by need, so fewer than three items
  of the pool come strictly before it (fewer matches, or as many matches and a larger
  deviation). Candidate B is an item of the pool with another identifier than A, and
  either its rating is within 100 of the rating of A, or no item with another identifier
  is within 100 and fewer than three of them are strictly closer to A than B is.
\<close>

theorem getNextMatchup_structure:
  assumes "2 \<le> length items" "distinct (map id' items)"
      and "0 \<le> r1" "r1 < 1" "0 \<le> r2" "r2 < 1"
  shows "\<exists>A B. getNextMatchup items r1 r2 = Inr (Some (A, Some B)) \<and>
     A \<in> set (take (min 3 (length items)) (sort_cmp need_cmp items)) \<and>
     A \<in> set items \<and>
     length (filter (\<lambda>y. matches y < matches A \<or> (matches y = matches A \<and> rd A < rd y)) items) < 3 \<and>
     B \<in> set items \<and> id' B \<noteq> id' A \<and>
     (\<bar>rating B - rating A\<bar> \<le> 100 \<or>
      ((\<forall>y \<in> set items. id' y \<noteq> id' A \<longrightarrow> \<not> \<bar>rating y - rating A\<bar> \<le> 100) \<and>
       length (filter (\<lambda>y. id' y \<noteq> id' A \<and> \<bar>rating y - rating A\<bar> < \<bar>rating B - rating A\<bar>) items) < 3))"
proof -
  from getNextMatchup_pair [OF assms(1,3,4), of r2] obtain i where
    i: "i < min 3 (length items)" and
    res: "getNextMatchup items r1 r2 =
       Inr (Some (sort_cmp need_cmp items ! i,
                  js_index (opponent_candidates items (sort_cmp need_cmp items ! i))
                    \<lfloor>r2 * real (length (opponent_candidates items (sort_cmp need_cmp items ! i)))\<rfloor>))"
    by blast
  let ?s = "sort_cmp need_cmp items"
  let ?A = "?s ! i"
  let ?oc = "opponent_candidates items ?A"
  have il: "i < length items" and i3: "i < 3" using i by simp_all
  have "i < length (take (min 3 (length items)) ?s)" using i by (simp add: length_sort_cmp_need)
  then have "take (min 3 (length items)) ?s ! i \<in> set (take (min 3 (length items)) ?s)"
    by (rule nth_mem)
  then have top: "?A \<in> set (take (min 3 (length items)) ?s)" using i by simp
  then have "?A \<in> set ?s" by (rule in_set_takeD)
  then have A: "?A \<in> set items" by (simp add: set_sort_cmp_need)
  have rank: "length (filter (\<lambda>y. matches y < matches ?A \<or> (matches y = matches ?A \<and> rd ?A < rd y)) items) < 3"
    using need_rank [OF il] i3 by simp
  from distinct_ids_other [OF assms(1,2), of ?A] obtain y where "y \<in> set items" "id' y \<noteq> id' ?A"
    by blast
  then have ne: "?oc \<noteq> []" by (rule opponent_candidates_nonempty)
  from js_index_random [OF assms(5,6) ne] obtain j where
    j: "j < length ?oc" "js_index ?oc \<lfloor>r2 * real (length ?oc)\<rfloor> = Some (?oc ! j)"
    by blast
  have "?oc ! j \<in> set ?oc" using j(1) by (rule nth_mem)
  note B = opponent_candidates_member [OF this]
  have r: "getNextMatchup items r1 r2 = Inr (Some (?A, Some (?oc ! j)))"
    using res j(2) by simp
  show ?thesis
    apply (rule exI [of _ ?A])
    apply (rule exI [of _ "?oc ! j"])
    using r top A rank B apply blast
    done
qed

text \<open>The theorem at a pool of three items whose ratings are 200 apart (the fallback).\<close>

theorem getNextMatchup_structure_witness:
  "2 \<le> length [example_item ''a'' 1500 0, example_item ''b'' 1700 3, example_item ''c'' 1900 1] \<and>
   distinct (map id' [example_item ''a'' 1500 0, example_item ''b'' 1700 3, example_item ''c'' 1900 1]) \<and>
   (\<exists>A B. getNextMatchup [example_item ''a'' 1500 0, example_item ''b'' 1700 3, example_item ''c'' 1900 1] 0 (1/2)
             = Inr (Some (A, Some B)) \<and> id' B \<noteq> id' A \<and>
          length (filter (\<lambda>y. matches y < matches A \<or> (matches y = matches A \<and> rd A < rd y))
            [example_item ''a'' 1500 0, example_item ''b'' 1700 3, example_item ''c'' 1900 1]) < 3)"
proof -
  let ?pool = "[example_item ''a'' 1500 0, example_item ''b'' 1700 3, example_item ''c'' 1900 1]"
  have h1: "2 \<le> length ?pool" by simp
  have h2: "distinct (map id' ?pool)" by (simp add: example_item_def)
  have r: "(0::real) \<le> 0" "(0::real) < 1" "(0::real) \<le> 1/2" "(1/2::real) < 1" by simp_all
  from getNextMatchup_structure [OF h1 h2 r] h1 h2 show ?thesis by blast
qed

text \<open>
  The claim as stated fails on a pool of two items that share an identifier: the second
  place of the pair is \<^verbatim>\<open>undefined\<close>, not an item.
\<close>

theorem getNextMatchup_structure_counterexample:
  "getNextMatchup [example_item ''a'' 1500 0, example_item ''a'' 1520 3] 0 0
     = Inr (Some (example_item ''a'' 1500 0, None))"
  by (simp add: getNextMatchup_def candidate_A_def opponent_candidates_def sort_cmp_def
      need_cmp_def js_index_def example_item_def Let_def)

text \<open>
  Claim C10, as amended. For a pool of at least two items with pairwise distinct
  identifiers and any two draws, candidate A is defined, the list of opponent candidates
  built for it is not empty, the second random index is within that list, and candidate B
  is a defined item.
\<close>

theorem opponent_candidates_defined:
  assumes "2 \<le> length items" "distinct (map id' items)"
      and "0 \<le> r1" "r1 < 1" "0 \<le> r2" "r2 < 1"
  shows "\<exists>A B. candidate_A items r1 = Some A \<and>
     opponent_candidates items A \<noteq> [] \<and>
     0 \<le> \<lfloor>r2 * real (length (opponent_candidates items A))\<rfloor> \<and>
     \<lfloor>r2 * real (length (opponent_candidates items A))\<rfloor> < int (length (opponent_candidates items A)) \<and>
     js_index (opponent_candidates items A) \<lfloor>r2 * real (length (opponent_candidates items A))\<rfloor> = Some B \<and>
     getNextMatchup items r1 r2 = Inr (Some (A, Some B))"
proof -
  have ne0: "items \<noteq> []" using assms(1) by auto
  from candidate_A_top [OF assms(3,4) ne0] obtain i where
    i: "i < min 3 (length items)" and cA: "candidate_A items r1 = Some (sort_cmp need_cmp items ! i)"
    by blast
  let ?A = "sort_cmp need_cmp items ! i"
  let ?oc = "opponent_candidates items ?A"
  from distinct_ids_other [OF assms(1,2), of ?A] obtain y where "y \<in> set items" "id' y \<noteq> id' ?A"
    by blast
  then have ne: "?oc \<noteq> []" by (rule opponent_candidates_nonempty)
  then have n: "0 < length ?oc" by simp
  note rng = floor_index_range [OF assms(5,6) n]
  have B: "js_index ?oc \<lfloor>r2 * real (length ?oc)\<rfloor> = Some (?oc ! nat \<lfloor>r2 * real (length ?oc)\<rfloor>)"
    using rng by (simp add: js_index_def)
  have "\<not> length items < 2" using assms(1) by simp
  then have "getNextMatchup items r1 r2 = Inr (Some (?A, Some (?oc ! nat \<lfloor>r2 * real (length ?oc)\<rfloor>)))"
    using cA B by (simp add: getNextMatchup_def Let_def)
  with cA ne rng B show ?thesis by blast
qed

text \<open>The theorem at a pool of two items, with the draws 1/2 and 1/2.\<close>

theorem opponent_candidates_defined_witness:
  "2 \<le> length [example_item ''a'' 1500 0, example_item ''b'' 1520 3] \<and>
   distinct (map id' [example_item ''a'' 1500 0, example_item ''b'' 1520 3]) \<and>
   (\<exists>A B. candidate_A [example_item ''a'' 1500 0, example_item ''b'' 1520 3] (1/2) = Some A \<and>
      opponent_candidates [example_item ''a'' 1500 0, example_item ''b'' 1520 3] A \<noteq> [] \<and>
      getNextMatchup [example_item ''a'' 1500 0, example_item ''b'' 1520 3] (1/2) (1/2)
        = Inr (Some (A, Some B)))"
proof -
  let ?pool = "[example_item ''a'' 1500 0, example_item ''b'' 1520 3]"
  have h1: "2 \<le> length ?pool" by simp
  have h2: "distinct (map id' ?pool)" by (simp add: example_item_def)
  have r: "(0::real) \<le> 1/2" "(1/2::real) < 1" by simp_all
  from opponent_candidates_defined [OF h1 h2 r r] h1 h2 show ?thesis by blast
qed

text \<open>
  The claim as stated fails on a pool of three items that share one identifier: the list
  of opponent candidates is empty and the second place of the pair is \<^verbatim>\<open>undefined\<close>.
\<close>

theorem opponent_candidates_defined_counterexample:
  "candidate_A [example_item ''x'' 1500 2, example_item ''x'' 1500 1, example_item ''x'' 1400 5] (1/2)
     = Some (example_item ''x'' 1500 2) \<and>
   opponent_candidates [example_item ''x'' 1500 2, example_item ''x'' 1500 1, example_item ''x'' 1400 5]
     (example_item ''x'' 1500 2) = [] \<and>
   getNextMatchup [example_item ''x'' 1500 2, example_item ''x'' 1500 1, example_item ''x'' 1400 5] (1/2) (1/2)
     = Inr (Some (example_item ''x'' 1500 2, None))"
  by (simp add: getNextMatchup_def candidate_A_def opponent_candidates_def sort_cmp_def
      need_cmp_def js_index_def example_item_def Let_def)

end
